theory Spec2Isabelle
  imports Main "HOL-Library.Word"
begin

unbundle bit_operations_syntax

section \<open>Bytes, C strings and the ctype predicates\<close>

text \<open>
  A C \<^verbatim>\<open>char\<close> is a \<^typ>\<open>char\<close> (one byte); \<^term>\<open>of_char\<close> reads it as an
  unsigned number and \<^term>\<open>char_of\<close> truncates a number to eight bits, which is the
  conversion to \<^verbatim>\<open>unsigned char\<close>. A buffer handed to a function together with
  its length is the list of the bytes before the terminator the callers put at
  index \<^verbatim>\<open>len\<close>.
\<close>

abbreviation NUL :: char where "NUL \<equiv> CHR 0x00"
abbreviation SOH :: char where "SOH \<equiv> CHR 0x01"

text \<open>The bytes a C string function sees: everything before the first NUL.\<close>

definition cstr :: "string \<Rightarrow> string" where
  "cstr xs = takeWhile (\<lambda>c. c \<noteq> NUL) xs"

definition strlen :: "string \<Rightarrow> nat" where
  "strlen xs = length (cstr xs)"

text \<open>\<^verbatim>\<open>strchr(s, c)\<close> as the offset of the first \<^verbatim>\<open>c\<close>, \<open>None\<close> for a null pointer.\<close>

fun strchr :: "string \<Rightarrow> char \<Rightarrow> nat option" where
  "strchr [] c = (if c = NUL then Some 0 else None)"
| "strchr (x # xs) c =
     (if x = c then Some 0
      else if x = NUL then None
      else map_option Suc (strchr xs c))"

text \<open>\<^verbatim>\<open>strcspn(s, " \t")\<close>.\<close>

definition strcspn_blank :: "string \<Rightarrow> nat" where
  "strcspn_blank xs =
     length (takeWhile (\<lambda>c. c \<noteq> NUL \<and> c \<noteq> CHR '' '' \<and> c \<noteq> CHR 0x09) xs)"

text \<open>
  \<^verbatim>\<open>isblank\<close>, \<^verbatim>\<open>isspace\<close> and \<^verbatim>\<open>ispunct\<close> of the C locale (the program never
  calls \<^verbatim>\<open>setlocale\<close>); bytes from 128 on are in none of the classes.
\<close>

definition isblank :: "char \<Rightarrow> bool" where
  "isblank c \<longleftrightarrow> c = CHR '' '' \<or> c = CHR 0x09"

definition isspace :: "char \<Rightarrow> bool" where
  "isspace c \<longleftrightarrow> c = CHR '' '' \<or> (9 \<le> (of_char c :: nat) \<and> (of_char c :: nat) \<le> 13)"

definition ispunct :: "char \<Rightarrow> bool" where
  "ispunct c \<longleftrightarrow>
     (let n = (of_char c :: nat)
      in (33 \<le> n \<and> n \<le> 47) \<or> (58 \<le> n \<and> n \<le> 64) \<or>
         (91 \<le> n \<and> n \<le> 96) \<or> (123 \<le> n \<and> n \<le> 126))"

section \<open>Global state of the client\<close>

datatype conn_state = Connecting | Connected | LoginSent | Chat | CommandSent

text \<open>
  \<^verbatim>\<open>struct icb_task\<close>. The callback is a function pointer; it is kept as an
  identifier and \<open>None\<close> is the null pointer \<^verbatim>\<open>calloc\<close> leaves there.
\<close>

record icb_task =
  it_len :: nat
  it_ndone :: nat
  it_cb :: "nat option"
  it_data :: string

text \<open>Every way the process is ended by \<^verbatim>\<open>err\<close> or by a wild memory access.\<close>

datatype fatal =
    Unexpected_msg char
  | Invalid_msg char string
  | Unsupported_protocol
  | Alloc_failed
  | Write_failed
  | Read_failed
  | Too_long_message
  | Types_messed_up
  | Mem_fault

text \<open>\<^verbatim>\<open>enum SrvFeature\<close>, used as bits of \<^verbatim>\<open>srv_features\<close>.\<close>

definition Ping :: "32 word" where "Ping = 0x01"
definition ExtPkt :: "32 word" where "ExtPkt = 0x02"

record session =
  state :: conn_state
  srv_features :: "32 word"
  want_exit :: bool
  want_info :: bool
  pings_sent :: nat
  last_cmd_has_nl :: bool
  nick :: string
  hostname :: string
  room :: string
  tasks_stdout :: "icb_task list"
  tasks_net :: "icb_task list"

text \<open>
  What the program takes from the platform and from libc: the limit
  \<^verbatim>\<open>LOGIN_NAME_MAX\<close>, the clock as \<^verbatim>\<open>strftime\<close> prints it, the
  \<^verbatim>\<open>vis(3)\<close> encoders, and the byte found at each offset of memory that
  \<^verbatim>\<open>malloc\<close> and \<^verbatim>\<open>reallocarray\<close> hand out uninitialised. \<^verbatim>\<open>proceed_user_list\<close> and \<^verbatim>\<open>proceed_group_list\<close> only
  queue display text (built with \<^verbatim>\<open>strtoll\<close>, \<^verbatim>\<open>ctime\<close> and \<^verbatim>\<open>strvis\<close>); the
  texts they queue are taken from here as well.
\<close>

record platform =
  LOGIN_NAME_MAX :: nat
  strftime_now :: string
  strvis :: "string \<Rightarrow> string"
  strvisx :: "string \<Rightarrow> string"
  user_list_text :: "string \<Rightarrow> string list"
  group_list_text :: "string \<Rightarrow> string \<Rightarrow> string list"
  heap_junk :: "nat \<Rightarrow> char"

definition NICKNAME_MAX :: "platform \<Rightarrow> nat" where
  "NICKNAME_MAX pf = (if LOGIN_NAME_MAX pf > 64 then 64 else LOGIN_NAME_MAX pf)"

text \<open>The globals as the initialisers of the source set them.\<close>

definition initial_session :: "string \<Rightarrow> string \<Rightarrow> string \<Rightarrow> session" where
  "initial_session n h r =
     \<lparr>state = Connecting, srv_features = Ping, want_exit = False, want_info = False,
      pings_sent = 0, last_cmd_has_nl = False, nick = n, hostname = h, room = r,
      tasks_stdout = [], tasks_net = []\<rparr>"

section \<open>Queueing output\<close>

definition new_task :: "string \<Rightarrow> icb_task" where
  "new_task d = \<lparr>it_len = length d, it_ndone = 0, it_cb = None, it_data = d\<rparr>"

text \<open>\<^verbatim>\<open>push_stdout_msg\<close>: the text and its terminator, \<^verbatim>\<open>strlen(text) + 1\<close> bytes.\<close>

definition push_stdout_msg :: "string \<Rightarrow> session \<Rightarrow> session" where
  "push_stdout_msg text s =
     s\<lparr>tasks_stdout := tasks_stdout s @ [new_task (cstr text @ [NUL])]\<rparr>"

subsection \<open>Standard packets: \<^verbatim>\<open>push_icb_msg_ws\<close>\<close>

definition privmsg :: "char \<Rightarrow> string \<Rightarrow> bool" where
  "privmsg type msg \<longleftrightarrow> type = CHR ''h'' \<and> take 2 (msg @ [NUL]) = [CHR ''m'', SOH]"

definition ws_commonlen :: "platform \<Rightarrow> char \<Rightarrow> string \<Rightarrow> nat" where
  "ws_commonlen pf type msg =
     (if privmsg type msg then
        (case strchr msg (CHR '' '') of
           None \<Rightarrow> 0
         | Some i \<Rightarrow> if i < NICKNAME_MAX pf + 3 then (i mod 256 + 1) mod 256 else 0)
      else 0)"

text \<open>
  \<^verbatim>\<open>maxlen = 253 - ((unsigned char)strlen(nick) + 1) - commonlen\<close>, computed in
  \<^verbatim>\<open>int\<close> and stored in an \<^verbatim>\<open>unsigned char\<close>.
\<close>

definition ws_maxlen :: "string \<Rightarrow> nat \<Rightarrow> nat" where
  "ws_maxlen nk commonlen =
     nat ((253 - (int (strlen nk mod 256) + 1) - int commonlen) mod 256)"

text \<open>
  The inner \<^verbatim>\<open>for\<close> loop: \<^verbatim>\<open>p\<close> runs from the given offset down to 1 and stops
  at the first blank or punctuation byte; offset 0 is never looked at.
\<close>

fun find_break :: "string \<Rightarrow> nat \<Rightarrow> nat option" where
  "find_break src 0 = None"
| "find_break src (Suc i) =
     (if isblank (src ! Suc i) \<or> ispunct (src ! Suc i) then Some (Suc i)
      else find_break src i)"

definition ws_msglen :: "char \<Rightarrow> bool \<Rightarrow> nat \<Rightarrow> string \<Rightarrow> nat" where
  "ws_msglen type priv maxlen src =
     (if length src > maxlen then
        (if type = CHR ''b'' \<or> priv then
           (case find_break src (maxlen - 1) of None \<Rightarrow> maxlen | Some p \<Rightarrow> p + 1)
         else maxlen)
      else length src)"

definition ws_task :: "char \<Rightarrow> string \<Rightarrow> string \<Rightarrow> icb_task" where
  "ws_task type common chunk =
     \<lparr>it_len = length chunk + length common + 3, it_ndone = 0, it_cb = None,
      it_data = char_of (length chunk + length common + 2) # type # common @ chunk @ [NUL]\<rparr>"

text \<open>
  The \<^verbatim>\<open>do ... while (len)\<close> loop, returning the tasks in the order they are
  appended. A round that takes no byte while bytes remain repeats for ever in the
  source, allocating a task each time, until \<^verbatim>\<open>calloc\<close> fails.
\<close>

function ws_loop :: "char \<Rightarrow> bool \<Rightarrow> string \<Rightarrow> nat \<Rightarrow> string \<Rightarrow> fatal + icb_task list" where
  "ws_loop type priv common maxlen src =
     (if length src - ws_msglen type priv maxlen src = 0
      then Inr [ws_task type common (take (ws_msglen type priv maxlen src) src)]
      else if ws_msglen type priv maxlen src = 0 then Inl Alloc_failed
      else (case ws_loop type priv common maxlen (drop (ws_msglen type priv maxlen src) src) of
              Inl e \<Rightarrow> Inl e
            | Inr its \<Rightarrow>
                Inr (ws_task type common (take (ws_msglen type priv maxlen src) src) # its)))"
  by pat_completeness auto
termination
  by (relation "measure (\<lambda>(type, priv, common, maxlen, src). length src)") auto

definition push_icb_msg_ws :: "platform \<Rightarrow> string \<Rightarrow> char \<Rightarrow> string \<Rightarrow> fatal + icb_task list" where
  "push_icb_msg_ws pf nk type msg =
     (let commonlen = ws_commonlen pf type msg
      in ws_loop type (privmsg type msg) (take commonlen msg)
           (ws_maxlen nk commonlen) (drop commonlen msg))"

subsection \<open>Extended packets: \<^verbatim>\<open>push_icb_msg_extended\<close>\<close>

text \<open>
  The \<^verbatim>\<open>while (msgcnt-- > 1)\<close> loop: the bytes written and the source bytes left.
\<close>

fun ext_loop :: "char \<Rightarrow> nat \<Rightarrow> string \<Rightarrow> string \<times> string" where
  "ext_loop type 0 src = ([], src)"
| "ext_loop type (Suc n) src =
     (case ext_loop type n (drop 254 src) of
        (w, r) \<Rightarrow> (NUL # type # take 254 src @ w, r))"

text \<open>
  The task is \<^verbatim>\<open>it_len\<close> bytes of a zeroed allocation into which the slots were
  written; the source buffer is the payload and its terminator.
\<close>

definition push_icb_msg_extended :: "char \<Rightarrow> string \<Rightarrow> icb_task" where
  "push_icb_msg_extended type src =
     (let len = length src + 1;
          msgcnt = (len + 253) div 254;
          itlen = len + msgcnt * 2;
          szfinal = (len mod 254) mod 256
      in case ext_loop type (msgcnt - 1) (src @ [NUL]) of
           (w, r) \<Rightarrow>
             \<lparr>it_len = itlen, it_ndone = 0, it_cb = None,
              it_data = take itlen
                (w @ [char_of (szfinal + 1), type] @ take szfinal r @ replicate itlen NUL)\<rparr>)"

definition push_icb_msg :: "platform \<Rightarrow> char \<Rightarrow> string \<Rightarrow> session \<Rightarrow> fatal + session" where
  "push_icb_msg pf type src s =
     (if srv_features s AND ExtPkt = ExtPkt
      then Inr (s\<lparr>tasks_net := tasks_net s @ [push_icb_msg_extended type src]\<rparr>)
      else (case push_icb_msg_ws pf (nick s) type src of
              Inl e \<Rightarrow> Inl e
            | Inr its \<Rightarrow> Inr (s\<lparr>tasks_net := tasks_net s @ its\<rparr>)))"

section \<open>The protocol state machine\<close>

text \<open>
  \<^verbatim>\<open>proceed_chat_msg\<close>: the line queued for display. The call of
  \<^verbatim>\<open>save_history\<close> only touches the history files, which are not part of the
  session modelled here.
\<close>

definition preuser :: "char \<Rightarrow> string" where
  "preuser type =
     (if type = CHR ''c'' then '' *''
      else if type = CHR ''d'' then '' [=''
      else if type = CHR ''e'' \<or> type = CHR ''k'' then '' !''
      else if type = CHR ''f'' then '' {''
      else '' <'')"

definition postuser :: "char \<Rightarrow> string" where
  "postuser type =
     (if type = CHR ''c'' then ''* ''
      else if type = CHR ''d'' then ''=] ''
      else if type = CHR ''e'' \<or> type = CHR ''k'' then ''! ''
      else if type = CHR ''f'' then ''} ''
      else ''> '')"

definition proceed_chat_msg :: "platform \<Rightarrow> char \<Rightarrow> string \<Rightarrow> string \<Rightarrow> session \<Rightarrow> session" where
  "proceed_chat_msg pf type author text s =
     push_stdout_msg
       (strftime_now pf @ preuser type @ strvis pf author @ postuser type @
        strvis pf text @ [CHR 0x0A]) s"

text \<open>\<^verbatim>\<open>proceed_cmd_result(msg, len)\<close>; with \<^verbatim>\<open>len = 0\<close> the byte at
  \<^verbatim>\<open>msg[len-1]\<close> is the separator the caller has just overwritten with NUL.\<close>

definition proceed_cmd_result :: "platform \<Rightarrow> string \<Rightarrow> session \<Rightarrow> session" where
  "proceed_cmd_result pf msg s =
     push_stdout_msg (strvisx pf msg)
       (s\<lparr>last_cmd_has_nl := (msg \<noteq> [] \<and> last msg = CHR 0x0A)\<rparr>)"

definition proceed_cmd_result_end :: "string \<Rightarrow> session \<Rightarrow> session" where
  "proceed_cmd_result_end msg s =
     (if last_cmd_has_nl s then s\<lparr>last_cmd_has_nl := False\<rparr>
      else push_stdout_msg [CHR 0x0A] s)\<lparr>state := Chat\<rparr>"

definition proceed_user_list :: "platform \<Rightarrow> string \<Rightarrow> session \<Rightarrow> session" where
  "proceed_user_list pf msg s = fold push_stdout_msg (user_list_text pf msg) s"

definition proceed_group_list :: "platform \<Rightarrow> string \<Rightarrow> session \<Rightarrow> session" where
  "proceed_group_list pf msg s = fold push_stdout_msg (group_list_text pf (room s) msg) s"

text \<open>The table \<^verbatim>\<open>cmd_handlers\<close>; \<open>None\<close> is a null handler.\<close>

datatype icb_msg_handler = Cmd_result | Cmd_result_end | User_list | Group_list

definition cmd_handlers :: "(string \<times> icb_msg_handler option) list" where
  "cmd_handlers =
     [(''co'', Some Cmd_result), (''ec'', Some Cmd_result_end),
      (''wl'', Some User_list), (''wg'', Some Group_list),
      (''wh'', None), (''gh'', None), (''ch'', None), (''c'', None)]"

fun call_handler :: "platform \<Rightarrow> icb_msg_handler \<Rightarrow> string \<Rightarrow> session \<Rightarrow> session" where
  "call_handler pf Cmd_result msg s = proceed_cmd_result pf msg s"
| "call_handler pf Cmd_result_end msg s = proceed_cmd_result_end msg s"
| "call_handler pf User_list msg s = proceed_user_list pf msg s"
| "call_handler pf Group_list msg s = proceed_group_list pf msg s"

definition ping_unsupported :: string where
  "ping_unsupported = ''Undefined message type 108''"

definition unsupported_text :: "char \<Rightarrow> string" where
  "unsupported_text type =
     ''unsupported message of type '' @ [CHR 0x27, type, CHR 0x27] @ '', ignored'' @ [CHR 0x0A]"

text \<open>
  \<^verbatim>\<open>proceed_icb_msg(msg, len)\<close>. The argument is the \<^verbatim>\<open>len\<close> bytes of the message;
  the byte after them is NUL, so an empty message has type NUL. The debug
  output on the standard error stream is left out.
\<close>

definition proceed_icb_msg :: "platform \<Rightarrow> string \<Rightarrow> session \<Rightarrow> fatal + session" where
  "proceed_icb_msg pf m s =
     (let type = (case m of [] \<Rightarrow> NUL | t # _ \<Rightarrow> t); msg = tl m in
      if type = CHR ''a'' then
        (if state s \<noteq> LoginSent then Inl (Unexpected_msg type)
         else Inr ((push_stdout_msg [CHR 0x0A] (push_stdout_msg (nick s)
                (push_stdout_msg '' as '' (push_stdout_msg (room s)
                (push_stdout_msg ''Logged in to room '' s)))))\<lparr>state := Chat\<rparr>))
      else if type = CHR ''b'' \<or> type = CHR ''c'' \<or> type = CHR ''d'' \<or> type = CHR ''f'' then
        (if state s \<noteq> CommandSent \<and> state s \<noteq> Chat then Inl (Unexpected_msg type)
         else (case strchr msg SOH of
                 None \<Rightarrow> Inl (Invalid_msg type ''missing text'')
               | Some i \<Rightarrow>
                   Inr (proceed_chat_msg pf type (take i msg) (cstr (drop (Suc i) msg))
                          (s\<lparr>state := Chat\<rparr>))))
      else if type = CHR ''e'' then
        (let s1 = (if state s \<noteq> Chat \<and> state s \<noteq> CommandSent
                   then s\<lparr>want_exit := True\<rparr> else s) in
         if cstr msg = ping_unsupported
         then Inr (s1\<lparr>srv_features := srv_features s1 AND NOT Ping\<rparr>)
         else Inr (proceed_chat_msg pf type (cstr (hostname s)) (cstr msg) s1))
      else if type = CHR ''g'' then
        (if state s \<noteq> Chat then Inl (Unexpected_msg type)
         else Inr ((push_stdout_msg (''ICB: server said bye-bye'' @ [CHR 0x0A]) s)
                     \<lparr>want_exit := True\<rparr>))
      else if type = CHR ''i'' then
        (if state s \<noteq> CommandSent then Inl (Unexpected_msg type)
         else (case strchr msg SOH of
                 None \<Rightarrow> Inl (Invalid_msg type ''missing output type'')
               | Some i \<Rightarrow>
                   (case map_of cmd_handlers (take i msg) of
                      None \<Rightarrow> Inl (Invalid_msg type ''unsupported output type'')
                    | Some None \<Rightarrow> Inr s
                    | Some (Some h) \<Rightarrow> Inr (call_handler pf h (drop (Suc i) msg) s))))
      else if type = CHR ''j'' then
        (if state s \<noteq> Connected then Inl (Unexpected_msg type)
         else if (case strchr msg SOH of None \<Rightarrow> cstr msg | Some i \<Rightarrow> take i msg) \<noteq> ''1''
         then Inl Unsupported_protocol
         else (case push_icb_msg pf (CHR ''a'')
                      (cstr (nick s) @ [SOH] @ cstr (nick s) @ [SOH] @ cstr (room s) @ [SOH] @
                       ''login'' @ [SOH]) s of
                 Inl e \<Rightarrow> Inl e
               | Inr s' \<Rightarrow> Inr (s'\<lparr>state := LoginSent\<rparr>)))
      else if type = CHR ''k'' then
        (if state s \<noteq> Chat then Inl (Unexpected_msg type)
         else Inr (proceed_chat_msg pf type ''SERVER'' ''BEEP!'' s))
      else if type = CHR ''l'' then push_icb_msg pf (CHR ''m'') msg s
      else if type = CHR ''m'' then Inr s
      else if type = CHR ''n'' then
        (if state s \<noteq> Chat then Inl (Unexpected_msg type) else Inr s)
      else Inr (push_stdout_msg (unsupported_text type) s))"

text \<open>
  \<^verbatim>\<open>proceed_user_input(line)\<close>; \<open>None\<close> is the null pointer readline passes at the
  end of input.
\<close>

definition proceed_user_input :: "platform \<Rightarrow> string option \<Rightarrow> session \<Rightarrow> fatal + session" where
  "proceed_user_input pf l s =
     (case l of
        None \<Rightarrow> Inr (s\<lparr>want_exit := True\<rparr>)
      | Some buf \<Rightarrow>
          (let line = cstr buf in
           if dropWhile isspace line = [] then Inr s
           else if hd line = CHR ''/'' \<and> tl line \<noteq> [] then
             (let cmd = tl line; n = strcspn_blank cmd;
                  cmd' = (if n < length cmd then cmd[n := SOH] else cmd)
              in case push_icb_msg pf (CHR ''h'') cmd' s of
                   Inl e \<Rightarrow> Inl e
                 | Inr s' \<Rightarrow> Inr (s'\<lparr>state := CommandSent\<rparr>))
           else push_icb_msg pf (CHR ''b'') line s))"

section \<open>Flushing a queue: \<^verbatim>\<open>push_data\<close> and \<^verbatim>\<open>proceed_output\<close>\<close>

text \<open>
  A descriptor is what it has taken so far and the outcomes of the coming
  \<^verbatim>\<open>write\<close> calls, which the environment chooses: a number of bytes accepted (never
  more than asked for), \<^verbatim>\<open>EAGAIN\<close>, or any other error. A descriptor with no
  outcome left would block.
\<close>

datatype wres = Wrote nat | EAGAIN | EIO

record fdesc =
  fd_written :: string
  fd_script :: "wres list"

text \<open>The loop of \<^verbatim>\<open>push_data\<close>: bytes taken so far, outcomes left, data left.\<close>

fun push_data_loop :: "string \<Rightarrow> wres list \<Rightarrow> string \<Rightarrow> fatal + (nat \<times> fdesc)" where
  "push_data_loop w sc [] = Inr (0, \<lparr>fd_written = w, fd_script = sc\<rparr>)"
| "push_data_loop w [] (d # ds) = Inr (0, \<lparr>fd_written = w, fd_script = []\<rparr>)"
| "push_data_loop w (EAGAIN # sc) (d # ds) = Inr (0, \<lparr>fd_written = w, fd_script = sc\<rparr>)"
| "push_data_loop w (EIO # sc) (d # ds) = Inl Write_failed"
| "push_data_loop w (Wrote n # sc) (d # ds) =
     (case push_data_loop (w @ take n (d # ds)) sc (drop n (d # ds)) of
        Inl e \<Rightarrow> Inl e
      | Inr (tot, fd) \<Rightarrow> Inr (min n (length (d # ds)) + tot, fd))"

definition push_data :: "fdesc \<Rightarrow> string \<Rightarrow> fatal + (nat \<times> fdesc)" where
  "push_data fd data = push_data_loop (fd_written fd) (fd_script fd) data"

text \<open>
  \<^verbatim>\<open>proceed_output\<close>: the queue left, the descriptor, and the callbacks run, in
  order. A task whose counter is beyond its length would make the size handed to
  \<^verbatim>\<open>write\<close> wrap around.
\<close>

fun proceed_output :: "icb_task list \<Rightarrow> fdesc \<Rightarrow> fatal + (icb_task list \<times> fdesc \<times> nat list)" where
  "proceed_output [] fd = Inr ([], fd, [])"
| "proceed_output (it # q) fd =
     (if it_ndone it > it_len it then Inl Mem_fault
      else (case push_data fd (take (it_len it - it_ndone it) (drop (it_ndone it) (it_data it))) of
              Inl e \<Rightarrow> Inl e
            | Inr (nwritten, fd') \<Rightarrow>
                if it_ndone it + nwritten < it_len it
                then Inr (it\<lparr>it_ndone := it_ndone it + nwritten\<rparr> # q, fd', [])
                else (case proceed_output q fd' of
                        Inl e \<Rightarrow> Inl e
                      | Inr (q', fd'', cbs) \<Rightarrow>
                          Inr (q', fd'', (case it_cb it of None \<Rightarrow> [] | Some c \<Rightarrow> [c]) @ cbs))))"

text \<open>The bytes of a task that are still to be written.\<close>

definition pending_bytes :: "icb_task \<Rightarrow> string" where
  "pending_bytes it = take (it_len it - it_ndone it) (drop (it_ndone it) (it_data it))"

definition task_ok :: "icb_task \<Rightarrow> bool" where
  "task_ok it \<longleftrightarrow> it_ndone it \<le> it_len it \<and> it_len it \<le> length (it_data it)"

definition callbacks_of :: "icb_task list \<Rightarrow> nat list" where
  "callbacks_of q = concat (map (\<lambda>it. case it_cb it of None \<Rightarrow> [] | Some c \<Rightarrow> [c]) q)"

section \<open>The main loop, one event at a time\<close>

text \<open>
  Each event is one of the places where \<^verbatim>\<open>main\<close>, the signal handler, the readline
  callback or \<^verbatim>\<open>get_next_icb_msg\<close> change the session: the information request and
  its answer, the two flushes (with the outcomes of the \<^verbatim>\<open>write\<close> calls), the
  keepalive timer, the completion of \<^verbatim>\<open>connect\<close>, a line from the user, network
  input arriving, a message extracted from it, the peer closing the connection,
  and the timeout.
\<close>

datatype event =
    Want_info
  | Show_info "string option"
  | Flush_net "wres list"
  | Flush_stdout "wres list"
  | Keepalive
  | Connect_done
  | User_line "string option"
  | Net_readable
  | Net_msg string
  | Net_closed
  | Net_timeout

definition show_info :: "string option \<Rightarrow> session \<Rightarrow> session" where
  "show_info port s =
     (if want_info s then
        (push_stdout_msg [CHR 0x0A] (push_stdout_msg (nick s) (push_stdout_msg '' as ''
          ((case port of None \<Rightarrow> (\<lambda>x. x)
            | Some p \<Rightarrow> (\<lambda>x. push_stdout_msg p (push_stdout_msg '':'' x)))
           (push_stdout_msg (hostname s) (push_stdout_msg '' at ''
           (push_stdout_msg (room s) (push_stdout_msg ''sitting in room '' s))))))))
          \<lparr>want_info := False\<rparr>
      else s)"

definition keepalive :: "platform \<Rightarrow> session \<Rightarrow> fatal + session" where
  "keepalive pf s =
     (if srv_features s AND Ping = Ping then
        (case push_icb_msg pf (CHR ''l'') [] s of
           Inl e \<Rightarrow> Inl e
         | Inr s' \<Rightarrow> Inr (s'\<lparr>pings_sent := pings_sent s' + 1\<rparr>))
      else push_icb_msg pf (CHR ''n'') [] s)"

definition net_closed :: "session \<Rightarrow> session" where
  "net_closed s =
     (push_stdout_msg ('' closed connection, exiting...'' @ [CHR 0x0A])
        (push_stdout_msg (hostname s) (push_stdout_msg ''Server '' s)))\<lparr>want_exit := True\<rparr>"

fun step :: "platform \<Rightarrow> event \<Rightarrow> session \<Rightarrow> fatal + session" where
  "step pf Want_info s = Inr (s\<lparr>want_info := True\<rparr>)"
| "step pf (Show_info port) s = Inr (show_info port s)"
| "step pf (Flush_net sc) s =
     (case proceed_output (tasks_net s) \<lparr>fd_written = [], fd_script = sc\<rparr> of
        Inl e \<Rightarrow> Inl e
      | Inr (q, fd, cbs) \<Rightarrow> Inr (s\<lparr>tasks_net := q\<rparr>))"
| "step pf (Flush_stdout sc) s =
     (case proceed_output (tasks_stdout s) \<lparr>fd_written = [], fd_script = sc\<rparr> of
        Inl e \<Rightarrow> Inl e
      | Inr (q, fd, cbs) \<Rightarrow> Inr (s\<lparr>tasks_stdout := q\<rparr>))"
| "step pf Keepalive s = keepalive pf s"
| "step pf Connect_done s =
     (if state s = Connecting
      then Inr ((push_stdout_msg (''connected'' @ [CHR 0x0A]) s)\<lparr>state := Connected\<rparr>)
      else Inr s)"
| "step pf (User_line l) s = proceed_user_input pf l s"
| "step pf Net_readable s = Inr (s\<lparr>pings_sent := 0\<rparr>)"
| "step pf (Net_msg m) s = proceed_icb_msg pf m s"
| "step pf Net_closed s = Inr (net_closed s)"
| "step pf Net_timeout s =
     Inr ((push_stdout_msg (''Server timed out, exiting'' @ [CHR 0x0A]) s)\<lparr>want_exit := True\<rparr>)"

text \<open>A run: the events in order, stopping at the first fatal error.\<close>

fun run :: "platform \<Rightarrow> event list \<Rightarrow> session \<Rightarrow> fatal + session" where
  "run pf [] s = Inr s"
| "run pf (ev # evs) s = (case step pf ev s of Inl e \<Rightarrow> Inl e | Inr s' \<Rightarrow> run pf evs s')"

text \<open>A sample environment and session for the concrete checks below.\<close>

definition sample_platform :: platform where
  "sample_platform =
     \<lparr>LOGIN_NAME_MAX = 32, strftime_now = ''[12:00:00]'', strvis = (\<lambda>x. x),
      strvisx = (\<lambda>x. x), user_list_text = (\<lambda>m. []), group_list_text = (\<lambda>r m. []),
      heap_junk = (\<lambda>i. CHR ''?'')\<rparr>"

definition sample_session :: "conn_state \<Rightarrow> session" where
  "sample_session st = (initial_session ''me'' ''host'' ''room'')\<lparr>state := st\<rparr>"

definition state_after :: "fatal + session \<Rightarrow> fatal + conn_state" where
  "state_after r = map_sum (\<lambda>e. e) state r"

definition want_exit_after :: "fatal + session \<Rightarrow> fatal + bool" where
  "want_exit_after r = map_sum (\<lambda>e. e) want_exit r"

definition stdout_after :: "fatal + session \<Rightarrow> fatal + string list" where
  "stdout_after r = map_sum (\<lambda>e. e) (\<lambda>s. map it_data (tasks_stdout s)) r"

text \<open>What a packet carries: the type byte and the bytes between it and the terminator.\<close>

definition task_type :: "icb_task \<Rightarrow> char" where
  "task_type it = it_data it ! 1"

definition task_payload :: "icb_task \<Rightarrow> string" where
  "task_payload it = take (it_len it - 3) (drop 2 (it_data it))"

text \<open>The types \<^verbatim>\<open>proceed_icb_msg\<close> has a case for.\<close>

definition handled_types :: "char set" where
  "handled_types = set ''abcdefgijklmn''"

text \<open>
  The shape of a queue after a flush that removed its first \<open>k\<close> tasks and wrote
  \<open>n\<close> more bytes of the next one, and the bytes \<open>w\<close> that went out.
\<close>

definition flushed :: "icb_task list \<Rightarrow> icb_task list \<Rightarrow> string \<Rightarrow> nat \<Rightarrow> nat \<Rightarrow> bool" where
  "flushed q q' w k n \<longleftrightarrow>
     (if k < length q
      then q' = (q ! k)\<lparr>it_ndone := it_ndone (q ! k) + n\<rparr> # drop (Suc k) q \<and>
           it_ndone (q ! k) + n < it_len (q ! k) \<and>
           w = concat (map pending_bytes (take k q)) @ take n (pending_bytes (q ! k))
      else q' = [] \<and> w = concat (map pending_bytes q))"

text \<open>Every task of the two queues has its counter within its length and its data.\<close>

definition session_ok :: "session \<Rightarrow> bool" where
  "session_ok s \<longleftrightarrow> (\<forall>it\<in>set (tasks_net s) \<union> set (tasks_stdout s). task_ok it)"

text \<open>A task of 100 bytes with a callback, for the concrete checks.\<close>

definition sample_task :: icb_task where
  "sample_task = \<lparr>it_len = 100, it_ndone = 0, it_cb = Some 1, it_data = replicate 100 (CHR ''x'')\<rparr>"

text \<open>The payload of the first packet queued.\<close>

definition first_payload :: "fatal + icb_task list \<Rightarrow> fatal + string" where
  "first_payload r = map_sum (\<lambda>e. e) (\<lambda>its. task_payload (hd its)) r"

section \<open>Receiving: \<^verbatim>\<open>get_next_icb_msg\<close>\<close>

text \<open>
  The static variables of \<^verbatim>\<open>get_next_icb_msg\<close>. The buffer is the whole
  allocation of \<^verbatim>\<open>bufsize\<close> bytes (\<open>None\<close> before the first call), of which the
  first \<^verbatim>\<open>bufread\<close> hold received data; \<^verbatim>\<open>msgend\<close> is an offset into it.
\<close>

record decoder =
  buf :: "string option"
  msgend :: "nat option"
  bufread :: nat
  bufsize :: nat

definition initial_decoder :: decoder where
  "initial_decoder = \<lparr>buf = None, msgend = None, bufread = 0, bufsize = 1024\<rparr>"

text \<open>
  The socket as \<^verbatim>\<open>read\<close> sees it: the bytes that have arrived and are not yet
  read, whether the peer has shut the connection down (then \<^verbatim>\<open>read\<close> returns 0
  once the bytes are consumed, otherwise it fails with \<^verbatim>\<open>EAGAIN\<close>), and whether
  \<^verbatim>\<open>read\<close> fails with another error. A \<^verbatim>\<open>read\<close> returns as many of the bytes
  as fit the count it is given.
\<close>

record socket =
  sock_pending :: string
  sock_closed :: bool
  sock_failed :: bool

text \<open>\<^verbatim>\<open>memmove(b + dst, b + src, n)\<close> on the buffer.\<close>

definition memmove :: "string \<Rightarrow> nat \<Rightarrow> nat \<Rightarrow> nat \<Rightarrow> string" where
  "memmove b dst src n = take dst b @ take n (drop src b) @ drop (dst + n) b"

text \<open>
  The start of a call: allocate, or drop the message returned by the previous
  call. The result is the buffer and the new \<^verbatim>\<open>bufread\<close>; a \<^verbatim>\<open>msgend\<close> beyond
  \<^verbatim>\<open>bufread\<close> makes the size of the move wrap around.
\<close>

definition dec_reset :: "platform \<Rightarrow> decoder \<Rightarrow> fatal + (string \<times> nat)" where
  "dec_reset pf d =
     (case buf d of
        None \<Rightarrow> Inr (map (heap_junk pf) [0..<bufsize d], bufread d)
      | Some b \<Rightarrow>
          (case msgend d of
             None \<Rightarrow> Inr (b, bufread d)
           | Some e \<Rightarrow>
               if bufread d < e then Inl Mem_fault
               else Inr (memmove b 0 e (bufread d - e), bufread d - e)))"

text \<open>\<^verbatim>\<open>reallocarray(buf, 2, bufsize)\<close> when only the spare byte is left.\<close>

definition grow :: "platform \<Rightarrow> string \<Rightarrow> nat \<Rightarrow> nat \<Rightarrow> string \<times> nat" where
  "grow pf b br bs =
     (if br = bs - 1 then (b @ map (heap_junk pf) [bs..<2 * bs], 2 * bs) else (b, bs))"

text \<open>
  The \<^verbatim>\<open>for (;;)\<close> loop around \<^verbatim>\<open>read\<close>. Arguments: whether \<^verbatim>\<open>read\<close> fails, the
  bytes pending on the socket, the buffer, \<^verbatim>\<open>bufread\<close>, \<^verbatim>\<open>bufsize\<close> and
  \<^verbatim>\<open>roundread\<close>; the loop ends when nothing is pending. A count that is not
  positive cannot arise from the initial values.
\<close>

function read_loop ::
  "platform \<Rightarrow> bool \<Rightarrow> string \<Rightarrow> string \<Rightarrow> nat \<Rightarrow> nat \<Rightarrow> nat \<Rightarrow>
     fatal + (string \<times> string \<times> nat \<times> nat \<times> nat)" where
  "read_loop pf failed pend b br bs roundread =
     (if br = bs - 1 \<and> 1024 * 1024 \<le> bs then Inl Too_long_message
      else if snd (grow pf b br bs) \<le> br + 1 then Inl Mem_fault
      else if failed then Inl Read_failed
      else if pend = [] then Inr (pend, fst (grow pf b br bs), br, snd (grow pf b br bs), roundread)
      else read_loop pf failed
             (drop (snd (grow pf b br bs) - br - 1) pend)
             (take br (fst (grow pf b br bs)) @ take (snd (grow pf b br bs) - br - 1) pend @
              drop (br + min (snd (grow pf b br bs) - br - 1) (length pend)) (fst (grow pf b br bs)))
             (br + min (snd (grow pf b br bs) - br - 1) (length pend))
             (snd (grow pf b br bs))
             (roundread + min (snd (grow pf b br bs) - br - 1) (length pend)))"
  by pat_completeness auto
termination
proof (relation "measure (\<lambda>(pf, failed, pend, b, br, bs, roundread). length pend)")
  fix pf :: platform and failed :: bool and pend b :: string and br bs roundread :: nat
  assume "\<not> snd (grow pf b br bs) \<le> br + 1" and "pend \<noteq> []"
  then have "0 < snd (grow pf b br bs) - br - 1" "0 < length pend" by simp_all
  then have "length pend - (snd (grow pf b br bs) - br - 1) < length pend" by (rule diff_less)
  then show "((pf, failed, drop (snd (grow pf b br bs) - br - 1) pend,
       take br (fst (grow pf b br bs)) @ take (snd (grow pf b br bs) - br - 1) pend @
       drop (br + min (snd (grow pf b br bs) - br - 1) (length pend)) (fst (grow pf b br bs)),
       br + min (snd (grow pf b br bs) - br - 1) (length pend), snd (grow pf b br bs),
       roundread + min (snd (grow pf b br bs) - br - 1) (length pend)),
      pf, failed, pend, b, br, bs, roundread)
     \<in> measure (\<lambda>(pf, failed, pend, b, br, bs, roundread). length pend)"
    by simp
qed simp

text \<open>The walk to the last packet, in strides of 256 bytes; \<open>None\<close> is \<^verbatim>\<open>return NULL\<close>.\<close>

function find_last :: "string \<Rightarrow> nat \<Rightarrow> nat \<Rightarrow> nat option" where
  "find_last b br off =
     (if b ! off = NUL then (if br < off + 256 then None else find_last b br (off + 256))
      else Some off)"
  by pat_completeness auto
termination
  by (relation "measure (\<lambda>(b, br, off). br + 256 - off)") auto

text \<open>
  The loop that checks the type of every packet and moves the data of the later
  ones down over their headers; the result is the buffer and \<^verbatim>\<open>bufread\<close>.
\<close>

function compact :: "string \<Rightarrow> nat \<Rightarrow> nat \<Rightarrow> nat \<Rightarrow> fatal + (string \<times> nat)" where
  "compact b br lastpkt pkt =
     (if lastpkt < pkt then Inr (b, br)
      else if b ! (pkt + 1) \<noteq> b ! (lastpkt + 1) then Inl Types_messed_up
      else if pkt = 0 then compact b br lastpkt (pkt + 256)
      else if br < pkt + 2 then Inl Mem_fault
      else compact
             (memmove b (pkt + 2 - (if b ! (pkt - 1) = NUL then 3 else 2)) (pkt + 2) (br - (pkt + 2)))
             (br - (if b ! (pkt - 1) = NUL then 3 else 2))
             (lastpkt - (if b ! (pkt - 1) = NUL then 3 else 2))
             (pkt - (if b ! (pkt - 1) = NUL then 3 else 2) + 256))"
  by pat_completeness auto
termination
  by (relation "measure (\<lambda>(b, br, lastpkt, pkt). lastpkt + 1 - pkt)") auto

text \<open>
  The last step: insert a NUL at \<^verbatim>\<open>msgend\<close> when the byte before it is not one
  (\<^verbatim>\<open>bufread\<close> is left as it is). The result is the buffer, \<^verbatim>\<open>bufread\<close> and
  \<^verbatim>\<open>msgend\<close>.
\<close>

definition terminate_msg :: "string \<Rightarrow> nat \<Rightarrow> nat \<Rightarrow> fatal + (string \<times> nat \<times> nat)" where
  "terminate_msg b br e =
     (if b ! (e - 1) \<noteq> NUL then
        (if br < e then Inl Mem_fault
         else Inr ((memmove b (e + 1) e (br - e))[e := NUL], br, e + 1))
      else Inr (b, br, e))"

text \<open>
  From the walk to the end of the call; \<^verbatim>\<open>msgend\<close> is computed from the last
  packet before the data are moved. Every offset read on the way is at most
  \<^verbatim>\<open>bufread\<close>, which the read loop keeps below \<^verbatim>\<open>bufsize\<close>.
\<close>

definition extract_msg :: "string \<Rightarrow> nat \<Rightarrow> fatal + (string \<times> nat \<times> nat) option" where
  "extract_msg b br =
     (case find_last b br 0 of
        None \<Rightarrow> Inr None
      | Some lastpkt \<Rightarrow>
          if br < lastpkt + of_char (b ! lastpkt) then Inr None
          else (case compact b br lastpkt 0 of
                  Inl e \<Rightarrow> Inl e
                | Inr (b2, br2) \<Rightarrow>
                    (case terminate_msg b2 br2 (lastpkt + 1 + of_char (b ! lastpkt)) of
                       Inl e \<Rightarrow> Inl e
                     | Inr r \<Rightarrow> Inr (Some r))))"

text \<open>
  \<^verbatim>\<open>get_next_icb_msg\<close>: the message returned (a copy of the \<^verbatim>\<open>msglen\<close> bytes at
  \<^verbatim>\<open>buf + 1\<close>, \<open>None\<close> for \<^verbatim>\<open>NULL\<close>), the socket, the static variables and the
  session, which changes when the peer has closed the connection.
\<close>

definition get_next_icb_msg ::
  "platform \<Rightarrow> socket \<Rightarrow> decoder \<Rightarrow> session \<Rightarrow>
     fatal + (string option \<times> socket \<times> decoder \<times> session)" where
  "get_next_icb_msg pf sk d s =
     (case dec_reset pf d of
        Inl e \<Rightarrow> Inl e
      | Inr (b0, br0) \<Rightarrow>
          (case read_loop pf (sock_failed sk) (sock_pending sk) b0 br0 (bufsize d) 0 of
             Inl e \<Rightarrow> Inl e
           | Inr (pend, b, br, bs, roundread) \<Rightarrow>
               (let sk' = sk\<lparr>sock_pending := pend\<rparr>;
                    s' = (if sock_closed sk then net_closed s else s);
                    d' = \<lparr>buf = Some b, msgend = None, bufread = br, bufsize = bs\<rparr>
                in if br = 0 \<and> roundread = 0 then Inr (None, sk', d', s')
                   else (case extract_msg b br of
                           Inl e \<Rightarrow> Inl e
                         | Inr None \<Rightarrow> Inr (None, sk', d', s')
                         | Inr (Some (b3, br3, e)) \<Rightarrow>
                             Inr (Some (take (e - 2) (drop 1 b3)), sk',
                                  \<lparr>buf = Some b3, msgend = Some e, bufread = br3, bufsize = bs\<rparr>,
                                  s')))))"

text \<open>
  The loop of \<^verbatim>\<open>main\<close> around \<^verbatim>\<open>get_next_icb_msg\<close>, collecting the messages
  instead of handing them to \<^verbatim>\<open>proceed_icb_msg\<close>. It runs for at most the given
  number of rounds; \<open>None\<close> means that they did not suffice.
\<close>

fun decode_stream ::
  "nat \<Rightarrow> platform \<Rightarrow> socket \<Rightarrow> decoder \<Rightarrow> session \<Rightarrow>
     (fatal + (string list \<times> socket \<times> decoder \<times> session)) option" where
  "decode_stream 0 pf sk d s = None"
| "decode_stream (Suc fuel) pf sk d s =
     (if want_exit s then Some (Inr ([], sk, d, s))
      else (case get_next_icb_msg pf sk d s of
              Inl e \<Rightarrow> Some (Inl e)
            | Inr (None, sk', d', s') \<Rightarrow> Some (Inr ([], sk', d', s'))
            | Inr (Some m, sk', d', s') \<Rightarrow>
                (case decode_stream fuel pf sk' d' s' of
                   None \<Rightarrow> None
                 | Some (Inl e) \<Rightarrow> Some (Inl e)
                 | Some (Inr (ms, sk'', d'', s'')) \<Rightarrow> Some (Inr (m # ms, sk'', d'', s'')))))"

text \<open>The bytes a list of tasks puts on the wire, and a socket on which they have arrived.\<close>

definition wire :: "icb_task list \<Rightarrow> string" where
  "wire its = concat (map (\<lambda>it. take (it_len it) (it_data it)) its)"

definition arrived :: "string \<Rightarrow> socket" where
  "arrived bytes = \<lparr>sock_pending = bytes, sock_closed = False, sock_failed = False\<rparr>"

definition decoded :: "(fatal + (string list \<times> socket \<times> decoder \<times> session)) option \<Rightarrow> (fatal + string list) option" where
  "decoded r = map_option (map_sum (\<lambda>e. e) fst) r"

text \<open>
  The static variables are consistent: the buffer has \<^verbatim>\<open>bufsize\<close> bytes, the spare
  byte is free, and \<^verbatim>\<open>msgend\<close> is within the received data. The received bytes
  not yet returned are \<open>unread\<close>.
\<close>

definition decoder_ok :: "decoder \<Rightarrow> bool" where
  "decoder_ok d \<longleftrightarrow>
     (case buf d of
        None \<Rightarrow> msgend d = None \<and> bufread d = 0 \<and> 0 < bufsize d
      | Some b \<Rightarrow>
          length b = bufsize d \<and> bufread d < bufsize d \<and>
          (case msgend d of None \<Rightarrow> True | Some e \<Rightarrow> e \<le> bufread d))"

definition unread :: "decoder \<Rightarrow> string" where
  "unread d =
     (case buf d of
        None \<Rightarrow> []
      | Some b \<Rightarrow>
          (case msgend d of
             None \<Rightarrow> take (bufread d) b
           | Some e \<Rightarrow> take (bufread d - e) (drop e b)))"

text \<open>A packet on the wire: length byte, type, body and terminator.\<close>

definition packet :: "char \<Rightarrow> string \<Rightarrow> string" where
  "packet t body = char_of (length body + 2) # t # body @ [NUL]"

definition wire_of :: "fatal + icb_task list \<Rightarrow> string" where
  "wire_of r = (case r of Inl e \<Rightarrow> [] | Inr its \<Rightarrow> wire its)"

text \<open>A private message of 306 bytes, for the concrete checks.\<close>

definition sample_prefix :: string where
  "sample_prefix = ''m'' @ [SOH] @ ''bob ''"

definition sample_private :: string where
  "sample_private = sample_prefix @ replicate 300 (CHR ''x'')"

text \<open>The \<open>i\<close>-th full slot of an extended packet: a zero length byte, the type and 254 bytes.\<close>

definition ext_slot :: "char \<Rightarrow> string \<Rightarrow> nat \<Rightarrow> string" where
  "ext_slot type src i = NUL # type # take 254 (drop (254 * i) src)"

section \<open>Properties of the state machine\<close>

declare ws_loop.simps [simp del]

lemma push_stdout_msg_fields [simp]:
  "state (push_stdout_msg t s) = state s"
  "srv_features (push_stdout_msg t s) = srv_features s"
  "want_exit (push_stdout_msg t s) = want_exit s"
  "want_info (push_stdout_msg t s) = want_info s"
  "pings_sent (push_stdout_msg t s) = pings_sent s"
  "last_cmd_has_nl (push_stdout_msg t s) = last_cmd_has_nl s"
  "nick (push_stdout_msg t s) = nick s"
  "hostname (push_stdout_msg t s) = hostname s"
  "room (push_stdout_msg t s) = room s"
  "tasks_net (push_stdout_msg t s) = tasks_net s"
  by (simp_all add: push_stdout_msg_def)

lemma fold_push_stdout_msg_fields [simp]:
  "state (fold push_stdout_msg ts s) = state s"
  "srv_features (fold push_stdout_msg ts s) = srv_features s"
  "want_exit (fold push_stdout_msg ts s) = want_exit s"
  "tasks_net (fold push_stdout_msg ts s) = tasks_net s"
  by (induction ts arbitrary: s; simp)+

lemma push_icb_msg_fields:
  assumes "push_icb_msg pf type src s = Inr s'"
  shows "state s' = state s" "srv_features s' = srv_features s" "want_exit s' = want_exit s"
    "tasks_stdout s' = tasks_stdout s" "nick s' = nick s"
  using assms by (auto simp: push_icb_msg_def split: if_splits sum.splits)

lemma Ping_cleared: "(x AND NOT Ping) AND Ping \<noteq> Ping"
  by (simp add: and.assoc Ping_def)

lemma call_handler_features [simp]: "srv_features (call_handler pf h msg s) = srv_features s"
  by (cases h) (simp_all add: proceed_cmd_result_def proceed_cmd_result_end_def
      proceed_user_list_def proceed_group_list_def)

lemma proceed_icb_msg_features:
  assumes "proceed_icb_msg pf m s = Inr s'"
  shows "srv_features s' = srv_features s \<or>
         (srv_features s' = srv_features s AND NOT Ping \<and>
          (\<exists>payload. m = CHR ''e'' # payload \<and> cstr payload = ping_unsupported))"
proof (cases m)
  case Nil
  with assms show ?thesis by (auto simp: proceed_icb_msg_def)
next
  case (Cons t p)
  with assms show ?thesis
    unfolding proceed_icb_msg_def Let_def
    by (auto simp: proceed_chat_msg_def split: if_splits option.splits sum.splits
        dest: push_icb_msg_fields(2))
qed

lemma proceed_user_input_features:
  assumes "proceed_user_input pf l s = Inr s'"
  shows "srv_features s' = srv_features s"
  using assms unfolding proceed_user_input_def Let_def
  by (auto split: option.splits if_splits sum.splits dest: push_icb_msg_fields(2))

lemma step_features:
  assumes "step pf ev s = Inr s'"
  shows "srv_features s' = srv_features s \<or>
         (srv_features s' = srv_features s AND NOT Ping \<and>
          (\<exists>payload. ev = Net_msg (CHR ''e'' # payload) \<and> cstr payload = ping_unsupported))"
proof (cases ev)
  case (Net_msg m)
  with assms proceed_icb_msg_features [of pf m s s'] show ?thesis by simp
next
  case (User_line l)
  with assms proceed_user_input_features show ?thesis by simp
next
  case Keepalive
  with assms show ?thesis
    by (auto simp: keepalive_def split: if_splits sum.splits dest: push_icb_msg_fields(2))
qed (use assms in \<open>auto simp: show_info_def net_closed_def split: sum.splits if_splits option.splits\<close>)

lemma step_ping_stays_clear:
  assumes "step pf ev s = Inr s'" "srv_features s AND Ping \<noteq> Ping"
  shows "srv_features s' AND Ping \<noteq> Ping"
  using step_features [OF assms(1)] assms(2) Ping_cleared by auto

lemma run_ping_stays_clear:
  "run pf evs s = Inr s' \<Longrightarrow> srv_features s AND Ping \<noteq> Ping \<Longrightarrow> srv_features s' AND Ping \<noteq> Ping"
proof (induction evs arbitrary: s)
  case Nil
  then show ?case by simp
next
  case (Cons ev evs)
  then show ?case
    by (auto split: sum.splits dest: step_ping_stays_clear)
qed

section \<open>Properties of the standard encoder\<close>

lemma strchr_Some:
  "strchr xs c = Some i \<Longrightarrow> c \<noteq> NUL \<Longrightarrow> i < length xs \<and> xs ! i = c \<and> NUL \<notin> set (take i xs) \<and> c \<notin> set (take i xs)"
  by (induction xs arbitrary: i) (auto split: if_splits)

lemma find_break_Some:
  "find_break src i = Some p \<Longrightarrow>
     1 \<le> p \<and> p \<le> i \<and> (isblank (src ! p) \<or> ispunct (src ! p)) \<and>
     (\<forall>j. p < j \<and> j \<le> i \<longrightarrow> \<not> (isblank (src ! j) \<or> ispunct (src ! j)))"
proof (induction i)
  case 0
  then show ?case by simp
next
  case (Suc i)
  show ?case
  proof (cases "isblank (src ! Suc i) \<or> ispunct (src ! Suc i)")
    case True
    with Suc.prems show ?thesis by auto
  next
    case False
    with Suc.prems have "find_break src i = Some p" by simp
    from Suc.IH [OF this] False show ?thesis
      by (metis le_Suc_eq)
  qed
qed

lemma find_break_None:
  "find_break src i = None \<Longrightarrow> (\<forall>j. 1 \<le> j \<and> j \<le> i \<longrightarrow> \<not> (isblank (src ! j) \<or> ispunct (src ! j)))"
proof (induction i)
  case 0
  then show ?case by simp
next
  case (Suc i)
  then show ?case by (auto split: if_splits simp: le_Suc_eq)
qed

lemma ws_msglen_le: "ws_msglen type priv maxlen src \<le> maxlen" "ws_msglen type priv maxlen src \<le> length src"
  by (auto simp: ws_msglen_def split: option.splits dest!: find_break_Some)

lemma ws_msglen_pos: "0 < maxlen \<Longrightarrow> src \<noteq> [] \<Longrightarrow> 0 < ws_msglen type priv maxlen src"
  by (auto simp: ws_msglen_def split: option.splits)

lemma ws_loop_chunks:
  assumes "0 < maxlen"
  shows "\<exists>chunks. ws_loop type priv common maxlen src = Inr (map (ws_task type common) chunks) \<and>
           chunks \<noteq> [] \<and> concat chunks = src \<and> (\<forall>c\<in>set chunks. length c \<le> maxlen) \<and>
           hd chunks = take (ws_msglen type priv maxlen src) src"
proof (induction src rule: length_induct)
  case (1 src)
  let ?n = "ws_msglen type priv maxlen src"
  show ?case
  proof (cases "length src - ?n = 0")
    case True
    then have "ws_loop type priv common maxlen src = Inr (map (ws_task type common) [take ?n src])"
      by (subst ws_loop.simps) simp
    moreover from True have "take ?n src = src" by simp
    ultimately show ?thesis using ws_msglen_le(1) [of type priv maxlen src]
      by (intro exI [of _ "[take ?n src]"]) simp
  next
    case False
    then have ne: "src \<noteq> []" by auto
    with assms have pos: "0 < ?n" by (rule ws_msglen_pos)
    then have "length (drop ?n src) < length src" using ne by simp
    with 1 obtain chunks where ch:
      "ws_loop type priv common maxlen (drop ?n src) = Inr (map (ws_task type common) chunks)"
      "chunks \<noteq> []" "concat chunks = drop ?n src" "\<forall>c\<in>set chunks. length c \<le> maxlen"
      by blast
    from False pos ch(1)
    have "ws_loop type priv common maxlen src = Inr (map (ws_task type common) (take ?n src # chunks))"
      by (subst ws_loop.simps) simp
    then show ?thesis using ch ws_msglen_le(1) [of type priv maxlen src]
      by (intro exI [of _ "take ?n src # chunks"]) simp
  qed
qed

lemma NICKNAME_MAX_le: "NICKNAME_MAX pf \<le> 64"
  by (simp add: NICKNAME_MAX_def)

lemma ws_commonlen_le:
  "ws_commonlen pf type msg \<le> NICKNAME_MAX pf + 3" "ws_commonlen pf type msg \<le> length msg"
  using NICKNAME_MAX_le [of pf]
  by (auto simp: ws_commonlen_def split: option.splits dest!: strchr_Some)

lemma ws_maxlen_val:
  assumes "strlen nk < NICKNAME_MAX pf" "cl \<le> NICKNAME_MAX pf + 3"
  shows "ws_maxlen nk cl = 252 - strlen nk - cl" "0 < ws_maxlen nk cl"
  using assms NICKNAME_MAX_le [of pf] by (auto simp: ws_maxlen_def)

lemma push_icb_msg_ws_chunks:
  assumes "strlen nk < NICKNAME_MAX pf"
  shows "\<exists>chunks. push_icb_msg_ws pf nk type msg =
             Inr (map (ws_task type (take (ws_commonlen pf type msg) msg)) chunks) \<and>
           chunks \<noteq> [] \<and> concat chunks = drop (ws_commonlen pf type msg) msg \<and>
           (\<forall>c\<in>set chunks. length c \<le> 252 - strlen nk - ws_commonlen pf type msg) \<and>
           hd chunks = take (ws_msglen type (privmsg type msg)
                               (ws_maxlen nk (ws_commonlen pf type msg))
                               (drop (ws_commonlen pf type msg) msg))
                         (drop (ws_commonlen pf type msg) msg)"
proof -
  let ?cl = "ws_commonlen pf type msg"
  have cl: "?cl \<le> NICKNAME_MAX pf + 3" by (rule ws_commonlen_le)
  have pos: "0 < ws_maxlen nk ?cl" using assms cl by (rule ws_maxlen_val)
  have val: "ws_maxlen nk ?cl = 252 - strlen nk - ?cl" using assms cl by (rule ws_maxlen_val)
  from ws_loop_chunks [OF pos, of type "privmsg type msg" "take ?cl msg" "drop ?cl msg"] val
  show ?thesis by (simp add: push_icb_msg_ws_def Let_def)
qed

lemma push_icb_msg_ok:
  assumes "strlen (nick s) < NICKNAME_MAX pf"
  shows "\<exists>its. push_icb_msg pf type src s = Inr (s\<lparr>tasks_net := tasks_net s @ its\<rparr>)"
  using push_icb_msg_ws_chunks [OF assms, of type src]
  by (auto simp: push_icb_msg_def)

lemma state_after_push:
  assumes "strlen (nick s) < NICKNAME_MAX pf"
  shows "state_after (push_icb_msg pf type src s) = Inr (state s)"
  using push_icb_msg_ok [OF assms, of type src] by (auto simp: state_after_def)

lemma cstr_Cons: "c \<noteq> NUL \<Longrightarrow> cstr (c # xs) = c # cstr xs"
  by (simp add: cstr_def)

lemma cstr_Nil [simp]: "cstr [] = []"
  by (simp add: cstr_def)

lemma strchr_append:
  "NUL \<notin> set xs \<Longrightarrow> c \<notin> set xs \<Longrightarrow> strchr (xs @ c # ys) c = Some (length xs)"
  by (induction xs) auto

lemma sample_nick: "strlen (nick (sample_session st)) < NICKNAME_MAX sample_platform"
  by (simp add: sample_session_def initial_session_def sample_platform_def NICKNAME_MAX_def
      strlen_def cstr_def)

section \<open>Claims about the state machine\<close>

text \<open>
  Claim C4, as amended. A message of type \<open>b\<close> received in state \<open>Connecting\<close> is
  fatal as an unexpected message; a message of type \<open>a\<close> received in state
  \<open>LoginSent\<close> moves the session to \<open>Chat\<close>; a user line that begins with \<open>/\<close>
  followed by at least one more character moves the session from \<open>Chat\<close> to
  \<open>CommandSent\<close>; and a message of type \<open>i\<close> whose output type is \<open>ec\<close>, received
  in state \<open>CommandSent\<close>, moves it back to \<open>Chat\<close>. The nickname is one that
  \<^verbatim>\<open>main\<close> accepts.
\<close>

theorem state_machine_transitions:
  assumes "strlen (nick s) < NICKNAME_MAX pf" and "c \<noteq> NUL"
  shows "(state s = Connecting \<longrightarrow>
            proceed_icb_msg pf (CHR ''b'' # payload) s = Inl (Unexpected_msg (CHR ''b''))) \<and>
         (state s = LoginSent \<longrightarrow>
            state_after (proceed_icb_msg pf (CHR ''a'' # payload) s) = Inr Chat) \<and>
         (state s = Chat \<longrightarrow>
            state_after (proceed_user_input pf (Some (CHR ''/'' # c # rest)) s) = Inr CommandSent) \<and>
         (state s = CommandSent \<longrightarrow>
            state_after (proceed_icb_msg pf (CHR ''i'' # ''ec'' @ SOH # args) s) = Inr Chat)"
proof (intro conjI impI)
  assume "state s = Connecting"
  then show "proceed_icb_msg pf (CHR ''b'' # payload) s = Inl (Unexpected_msg (CHR ''b''))"
    by (simp add: proceed_icb_msg_def)
next
  assume "state s = LoginSent"
  then show "state_after (proceed_icb_msg pf (CHR ''a'' # payload) s) = Inr Chat"
    by (simp add: proceed_icb_msg_def state_after_def)
next
  assume "state s = Chat"
  have line: "cstr (CHR ''/'' # c # rest) = CHR ''/'' # c # cstr rest"
    using assms(2) by (simp add: cstr_def)
  obtain its where "push_icb_msg pf (CHR ''h'')
      (if strcspn_blank (c # cstr rest) < length (c # cstr rest)
       then (c # cstr rest)[strcspn_blank (c # cstr rest) := SOH] else c # cstr rest) s =
      Inr (s\<lparr>tasks_net := tasks_net s @ its\<rparr>)"
    using push_icb_msg_ok [OF assms(1)] by blast
  then show "state_after (proceed_user_input pf (Some (CHR ''/'' # c # rest)) s) = Inr CommandSent"
    by (simp add: proceed_user_input_def line isspace_def state_after_def Let_def)
next
  assume "state s = CommandSent"
  moreover have "strchr (''ec'' @ SOH # args) SOH = Some 2" by simp
  ultimately show "state_after (proceed_icb_msg pf (CHR ''i'' # ''ec'' @ SOH # args) s) = Inr Chat"
    by (simp add: proceed_icb_msg_def state_after_def cmd_handlers_def
        proceed_cmd_result_end_def)
qed

text \<open>The four transitions on the sample session.\<close>

theorem state_machine_transitions_witness:
  "proceed_icb_msg sample_platform ''bhi'' (sample_session Connecting) = Inl (Unexpected_msg (CHR ''b'')) \<and>
   state_after (proceed_icb_msg sample_platform ''a'' (sample_session LoginSent)) = Inr Chat \<and>
   state_after (proceed_user_input sample_platform (Some ''/who'') (sample_session Chat)) = Inr CommandSent \<and>
   state_after (proceed_icb_msg sample_platform (CHR ''i'' # ''ec'' @ [SOH]) (sample_session CommandSent)) = Inr Chat"
proof -
  have c: "CHR ''w'' \<noteq> NUL" by simp
  have st: "state (sample_session st) = st" for st
    by (simp add: sample_session_def)
  from state_machine_transitions [where s = "sample_session Connecting" and payload = "''hi''", OF sample_nick c]
    state_machine_transitions [where s = "sample_session LoginSent" and payload = "[]", OF sample_nick c]
    state_machine_transitions [where s = "sample_session Chat" and rest = "''ho''", OF sample_nick c]
    state_machine_transitions [where s = "sample_session CommandSent" and args = "[]", OF sample_nick c]
  show ?thesis by (simp add: st)
qed

text \<open>
  Claim C4 as stated fails for the line that is a slash and nothing else: the
  test \<^verbatim>\<open>line[0] == '/' && line[1]\<close> sends it as a public message and the
  state stays \<open>Chat\<close>.
\<close>

theorem slash_alone_counterexample:
  "state_after (proceed_user_input sample_platform (Some ''/'') (sample_session Chat)) = Inr Chat"
proof -
  have "proceed_user_input sample_platform (Some ''/'') (sample_session Chat) =
        push_icb_msg sample_platform (CHR ''b'') ''/'' (sample_session Chat)"
    by (simp add: proceed_user_input_def cstr_def isspace_def)
  then show ?thesis
    using state_after_push [where s = "sample_session Chat" and type = "CHR ''b''" and src = "''/''", OF sample_nick]
    by (simp add: sample_session_def)
qed

lemma sample_features: "srv_features (sample_session st) AND ExtPkt \<noteq> ExtPkt"
  by (simp add: sample_session_def initial_session_def Ping_def ExtPkt_def)

text \<open>
  Claim C8. A message of type \<open>b\<close>, \<open>c\<close>, \<open>d\<close> or \<open>f\<close> received in state
  \<open>CommandSent\<close> (or \<open>Chat\<close>) is never rejected as unexpected, and when it has the
  author and the text separated by the byte 1 it is displayed and the state
  becomes \<open>Chat\<close>; in every other state these types are fatal as unexpected.
\<close>

theorem chat_msg_in_command_sent:
  assumes "type = CHR ''b'' \<or> type = CHR ''c'' \<or> type = CHR ''d'' \<or> type = CHR ''f''"
  shows "(state s = CommandSent \<or> state s = Chat \<longrightarrow>
            proceed_icb_msg pf (type # payload) s \<noteq> Inl (Unexpected_msg type) \<and>
            (NUL \<notin> set author \<and> SOH \<notin> set author \<longrightarrow>
               proceed_icb_msg pf (type # author @ SOH # words) s =
                 Inr (proceed_chat_msg pf type author (cstr words) (s\<lparr>state := Chat\<rparr>)) \<and>
               state_after (proceed_icb_msg pf (type # author @ SOH # words) s) = Inr Chat)) \<and>
         (state s \<noteq> CommandSent \<and> state s \<noteq> Chat \<longrightarrow>
            proceed_icb_msg pf (type # payload) s = Inl (Unexpected_msg type))"
proof (intro conjI impI)
  assume "state s = CommandSent \<or> state s = Chat"
  with assms show "proceed_icb_msg pf (type # payload) s \<noteq> Inl (Unexpected_msg type)"
    by (auto simp: proceed_icb_msg_def split: option.splits)
next
  assume st: "state s = CommandSent \<or> state s = Chat" and a: "NUL \<notin> set author \<and> SOH \<notin> set author"
  then have "strchr (author @ SOH # words) SOH = Some (length author)"
    by (simp add: strchr_append)
  with assms st show res: "proceed_icb_msg pf (type # author @ SOH # words) s =
      Inr (proceed_chat_msg pf type author (cstr words) (s\<lparr>state := Chat\<rparr>))"
    by (auto simp: proceed_icb_msg_def)
  show "state_after (proceed_icb_msg pf (type # author @ SOH # words) s) = Inr Chat"
    by (simp add: res state_after_def proceed_chat_msg_def)
next
  assume "state s \<noteq> CommandSent \<and> state s \<noteq> Chat"
  with assms show "proceed_icb_msg pf (type # payload) s = Inl (Unexpected_msg type)"
    by (auto simp: proceed_icb_msg_def)
qed

theorem chat_msg_in_command_sent_witness:
  "proceed_icb_msg sample_platform ''bx'' (sample_session CommandSent) \<noteq> Inl (Unexpected_msg (CHR ''b'')) \<and>
   state_after (proceed_icb_msg sample_platform (CHR ''b'' # ''bob'' @ SOH # ''hi'') (sample_session CommandSent)) = Inr Chat \<and>
   proceed_icb_msg sample_platform (CHR ''c'' # ''bob'' @ SOH # ''hi'') (sample_session LoginSent) = Inl (Unexpected_msg (CHR ''c''))"
proof -
  have st: "state (sample_session st) = st" for st
    by (simp add: sample_session_def)
  from chat_msg_in_command_sent [where type = "CHR ''b''" and s = "sample_session CommandSent"
        and payload = "''x''" and author = "''bob''" and words = "''hi''" and pf = sample_platform]
    chat_msg_in_command_sent [where type = "CHR ''c''" and s = "sample_session LoginSent"
        and payload = "''bob'' @ SOH # ''hi''" and pf = sample_platform]
  show ?thesis by (simp add: st state_after_def proceed_chat_msg_def)
qed

lemma ws_task_obs [simp]:
  "task_type (ws_task type common chunk) = type"
  "task_payload (ws_task type common chunk) = common @ chunk"
  by (simp_all add: task_type_def task_payload_def ws_task_def)

lemma privmsg_h: "type \<noteq> CHR ''h'' \<Longrightarrow> \<not> privmsg type msg"
  by (simp add: privmsg_def)

lemma ws_commonlen_0: "\<not> privmsg type msg \<Longrightarrow> ws_commonlen pf type msg = 0"
  by (simp add: ws_commonlen_def)

lemma push_icb_msg_ws_plain:
  assumes "strlen nk < NICKNAME_MAX pf" "\<not> privmsg type msg"
  shows "\<exists>its. push_icb_msg_ws pf nk type msg = Inr its \<and> its \<noteq> [] \<and>
           (\<forall>it\<in>set its. task_type it = type) \<and> concat (map task_payload its) = msg"
proof -
  from push_icb_msg_ws_chunks [OF assms(1), of type msg] ws_commonlen_0 [OF assms(2), of pf]
  obtain chunks where ch: "push_icb_msg_ws pf nk type msg = Inr (map (ws_task type []) chunks)"
    "chunks \<noteq> []" "concat chunks = msg"
    by auto
  have "map task_payload (map (ws_task type []) chunks) = chunks"
    by (induction chunks) simp_all
  with ch show ?thesis by auto
qed

text \<open>
  Claim C9. In every session state a ping (type \<open>l\<close>) is answered by queueing
  for the network a pong (type \<open>m\<close>) that carries the payload of the ping, with
  no check of the state and no other change of the session; a pong (type \<open>m\<close>)
  is accepted in every state and changes nothing. The nickname is one that
  \<^verbatim>\<open>main\<close> accepts and the server feature \<^verbatim>\<open>ExtPkt\<close> is off, as it is in every run.
\<close>

theorem ping_answered_in_every_state:
  assumes "strlen (nick s) < NICKNAME_MAX pf" and "srv_features s AND ExtPkt \<noteq> ExtPkt"
  shows "(\<exists>its. proceed_icb_msg pf (CHR ''l'' # payload) s = Inr (s\<lparr>tasks_net := tasks_net s @ its\<rparr>) \<and>
            push_icb_msg_ws pf (nick s) (CHR ''m'') payload = Inr its \<and> its \<noteq> [] \<and>
            (\<forall>it\<in>set its. task_type it = CHR ''m'') \<and>
            concat (map task_payload its) = payload) \<and>
         proceed_icb_msg pf (CHR ''m'' # payload) s = Inr s"
proof -
  have "\<not> privmsg (CHR ''m'') payload" by (simp add: privmsg_def)
  from push_icb_msg_ws_plain [OF assms(1) this]
  obtain its where its: "push_icb_msg_ws pf (nick s) (CHR ''m'') payload = Inr its" "its \<noteq> []"
    "\<forall>it\<in>set its. task_type it = CHR ''m''" "concat (map task_payload its) = payload"
    by blast
  with assms(2) have "proceed_icb_msg pf (CHR ''l'' # payload) s = Inr (s\<lparr>tasks_net := tasks_net s @ its\<rparr>)"
    by (simp add: proceed_icb_msg_def push_icb_msg_def)
  moreover have "proceed_icb_msg pf (CHR ''m'' # payload) s = Inr s"
    by (simp add: proceed_icb_msg_def)
  ultimately show ?thesis using its by blast
qed

theorem ping_answered_in_every_state_witness:
  "(\<exists>its. proceed_icb_msg sample_platform ''l123'' (sample_session Connecting) =
            Inr ((sample_session Connecting)\<lparr>tasks_net := its\<rparr>) \<and> its \<noteq> [] \<and>
          (\<forall>it\<in>set its. task_type it = CHR ''m'') \<and> concat (map task_payload its) = ''123'') \<and>
   proceed_icb_msg sample_platform ''m123'' (sample_session LoginSent) = Inr (sample_session LoginSent)"
  using ping_answered_in_every_state [where s = "sample_session Connecting" and payload = "''123''", OF sample_nick sample_features]
    ping_answered_in_every_state [where s = "sample_session LoginSent" and payload = "''123''", OF sample_nick sample_features]
  by (auto simp: sample_session_def initial_session_def)

text \<open>
  A type outside the handled set, other than NUL, queues the whole line
  and changes nothing else.
\<close>

lemma unsupported_type_ignored:
  assumes "type \<notin> handled_types" and "type \<noteq> NUL"
  shows "proceed_icb_msg pf (type # payload) s =
           Inr (s\<lparr>tasks_stdout := tasks_stdout s @ [new_task (unsupported_text type @ [NUL])]\<rparr>)"
  using assms
  by (simp add: proceed_icb_msg_def handled_types_def push_stdout_msg_def unsupported_text_def cstr_def)

text \<open>
  Claim C10 at the type byte NUL. The type is written over the \<open>X\<close> of the
  text and the text is queued up to its first NUL, so the line queued ends after
  the opening quote: the closing quote, the word "ignored" and the newline are
  missing.
\<close>

theorem unsupported_type_nul_truncated:
  "stdout_after (proceed_icb_msg sample_platform [NUL] (sample_session Chat)) =
     Inr [''unsupported message of type '' @ [CHR 0x27, NUL]]"
  by (simp add: proceed_icb_msg_def stdout_after_def push_stdout_msg_def unsupported_text_def
      cstr_def new_task_def sample_session_def initial_session_def)

text \<open>
  Claim C5, as amended. The \<^verbatim>\<open>Ping\<close> bit is set at startup; once it is clear no
  run sets it again; a step clears it only when it is the receipt of a message of
  type \<open>e\<close> whose text is the ping-unsupported sentinel; in state \<open>Chat\<close> or
  \<open>CommandSent\<close> that message changes nothing but the bit, and in the earlier
  states it also sets \<^verbatim>\<open>want_exit\<close>, as every error does there.
\<close>

theorem ping_bit_only_cleared:
  "srv_features (initial_session n h r) AND Ping = Ping \<and>
   (run pf evs s = Inr s' \<longrightarrow> srv_features s AND Ping \<noteq> Ping \<longrightarrow>
      srv_features s' AND Ping \<noteq> Ping) \<and>
   (step pf ev s = Inr s' \<longrightarrow> srv_features s AND Ping = Ping \<longrightarrow>
      srv_features s' AND Ping \<noteq> Ping \<longrightarrow>
      (\<exists>payload. ev = Net_msg (CHR ''e'' # payload) \<and> cstr payload = ping_unsupported)) \<and>
   (cstr words = ping_unsupported \<longrightarrow> state s = Chat \<or> state s = CommandSent \<longrightarrow>
      proceed_icb_msg pf (CHR ''e'' # words) s =
        Inr (s\<lparr>srv_features := srv_features s AND NOT Ping\<rparr>)) \<and>
   (cstr words = ping_unsupported \<longrightarrow> state s \<noteq> Chat \<and> state s \<noteq> CommandSent \<longrightarrow>
      proceed_icb_msg pf (CHR ''e'' # words) s =
        Inr (s\<lparr>want_exit := True, srv_features := srv_features s AND NOT Ping\<rparr>))"
proof (intro conjI impI)
  show "srv_features (initial_session n h r) AND Ping = Ping"
    by (simp add: initial_session_def)
next
  assume "run pf evs s = Inr s'" "srv_features s AND Ping \<noteq> Ping"
  then show "srv_features s' AND Ping \<noteq> Ping" by (rule run_ping_stays_clear)
next
  assume "step pf ev s = Inr s'" "srv_features s AND Ping = Ping" "srv_features s' AND Ping \<noteq> Ping"
  with step_features [of pf ev s s']
  show "\<exists>payload. ev = Net_msg (CHR ''e'' # payload) \<and> cstr payload = ping_unsupported"
    by auto
next
  assume "cstr words = ping_unsupported" "state s = Chat \<or> state s = CommandSent"
  then show "proceed_icb_msg pf (CHR ''e'' # words) s = Inr (s\<lparr>srv_features := srv_features s AND NOT Ping\<rparr>)"
    by (auto simp: proceed_icb_msg_def)
next
  assume "cstr words = ping_unsupported" "state s \<noteq> Chat \<and> state s \<noteq> CommandSent"
  then show "proceed_icb_msg pf (CHR ''e'' # words) s =
      Inr (s\<lparr>want_exit := True, srv_features := srv_features s AND NOT Ping\<rparr>)"
    by (auto simp: proceed_icb_msg_def)
qed

lemma cstr_ping_unsupported: "cstr ping_unsupported = ping_unsupported"
  by (simp add: cstr_def ping_unsupported_def)

theorem ping_bit_only_cleared_witness:
  "step sample_platform (Net_msg (CHR ''e'' # ping_unsupported)) (sample_session Chat) =
     Inr ((sample_session Chat)\<lparr>srv_features := Ping AND NOT Ping\<rparr>) \<and>
   run sample_platform [Net_msg ''m'', Want_info] ((sample_session Chat)\<lparr>srv_features := Ping AND NOT Ping\<rparr>) =
     Inr ((sample_session Chat)\<lparr>srv_features := Ping AND NOT Ping, want_info := True\<rparr>) \<and>
   srv_features ((sample_session Chat)\<lparr>srv_features := Ping AND NOT Ping, want_info := True\<rparr>) AND Ping \<noteq> Ping"
proof -
  let ?s1 = "(sample_session Chat)\<lparr>srv_features := Ping AND NOT Ping\<rparr>"
  let ?s2 = "(sample_session Chat)\<lparr>srv_features := Ping AND NOT Ping, want_info := True\<rparr>"
  have st: "state (sample_session Chat) = Chat" "srv_features (sample_session Chat) = Ping"
    by (simp_all add: sample_session_def initial_session_def)
  have r: "run sample_platform [Net_msg ''m'', Want_info] ?s1 = Inr ?s2"
    by (simp add: proceed_icb_msg_def)
  have c: "srv_features ?s1 AND Ping \<noteq> Ping"
    using Ping_cleared [of Ping] by simp
  from ping_bit_only_cleared [where s = "sample_session Chat" and words = ping_unsupported
      and pf = sample_platform]
  have "step sample_platform (Net_msg (CHR ''e'' # ping_unsupported)) (sample_session Chat) = Inr ?s1"
    by (simp add: cstr_ping_unsupported st)
  moreover from ping_bit_only_cleared [where s = ?s1 and s' = ?s2 and pf = sample_platform
      and evs = "[Net_msg ''m'', Want_info]"] r c
  have "srv_features ?s2 AND Ping \<noteq> Ping" by blast
  ultimately show ?thesis using r by blast
qed

text \<open>
  Claim C5 as stated fails before the login is confirmed: the sentinel received
  in state \<open>LoginSent\<close> sets \<^verbatim>\<open>want_exit\<close>, which ends the session.
\<close>

theorem ping_unsupported_before_login_counterexample:
  "want_exit_after (proceed_icb_msg sample_platform (CHR ''e'' # ping_unsupported) (sample_session LoginSent)) =
     Inr True"
  by (simp add: proceed_icb_msg_def Let_def want_exit_after_def cstr_ping_unsupported sample_session_def)

section \<open>Properties of the flush\<close>

lemma push_data_loop_written:
  "push_data_loop w sc data = Inr (n, fd) \<Longrightarrow> n \<le> length data \<and> fd_written fd = w @ take n data"
proof (induction w sc data arbitrary: n fd rule: push_data_loop.induct)
  case (5 w k sc d ds)
  from "5.prems" obtain tot where
    r: "push_data_loop (w @ take k (d # ds)) sc (drop k (d # ds)) = Inr (tot, fd)"
    and n: "n = min k (length (d # ds)) + tot"
    by (auto split: sum.splits)
  from "5.IH" [OF r] have tot: "tot \<le> length (drop k (d # ds))"
    and w: "fd_written fd = (w @ take k (d # ds)) @ take tot (drop k (d # ds))"
    by simp_all
  have "take n (d # ds) = take k (d # ds) @ take tot (drop k (d # ds))"
  proof (cases "k \<le> length (d # ds)")
    case True
    then show ?thesis unfolding n by (simp only: min_absorb1 take_add)
  next
    case False
    then show ?thesis using tot unfolding n by simp
  qed
  with tot w n show ?case by auto
qed auto

lemma push_data_written:
  "push_data fd data = Inr (n, fd') \<Longrightarrow> n \<le> length data \<and> fd_written fd' = fd_written fd @ take n data"
  unfolding push_data_def by (rule push_data_loop_written)

lemma pending_bytes_advance:
  "pending_bytes (it\<lparr>it_ndone := it_ndone it + n\<rparr>) = drop n (pending_bytes it)"
  by (simp add: pending_bytes_def drop_take add.commute)

lemma length_pending_bytes:
  "task_ok it \<Longrightarrow> length (pending_bytes it) = it_len it - it_ndone it"
  by (auto simp: pending_bytes_def task_ok_def)


lemma flushed_head:
  "it_ndone it + n < it_len it \<Longrightarrow>
   flushed (it # q) (it\<lparr>it_ndone := it_ndone it + n\<rparr> # q) (take n (pending_bytes it)) 0 n"
  by (simp add: flushed_def)

lemma flushed_Cons:
  "flushed q q' w k n \<Longrightarrow> flushed (it # q) q' (pending_bytes it @ w) (Suc k) n"
  by (simp add: flushed_def split: if_splits)

lemma callbacks_of_Cons:
  "callbacks_of (it # q) = (case it_cb it of None \<Rightarrow> [] | Some c \<Rightarrow> [c]) @ callbacks_of q"
  by (simp add: callbacks_of_def)

lemma proceed_output_correct:
  assumes "proceed_output q fd = Inr (q', fd', cbs)" and "\<forall>it\<in>set q. task_ok it"
  shows "\<exists>k n w. k \<le> length q \<and> cbs = callbacks_of (take k q) \<and>
           fd_written fd' = fd_written fd @ w \<and>
           concat (map pending_bytes q) = w @ concat (map pending_bytes q') \<and>
           (\<forall>it\<in>set q'. task_ok it) \<and> flushed q q' w k n"
  using assms
proof (induction q arbitrary: fd q' fd' cbs)
  case Nil
  then show ?case by (simp add: callbacks_of_def flushed_def)
next
  case (Cons it q)
  from Cons.prems(2) have ok: "task_ok it" and okq: "\<forall>it\<in>set q. task_ok it" by simp_all
  from ok have le: "\<not> it_len it < it_ndone it" by (simp add: task_ok_def)
  have unf: "proceed_output (it # q) fd =
     (case push_data fd (pending_bytes it) of
              Inl e \<Rightarrow> Inl e
            | Inr (nwritten, fd') \<Rightarrow>
                if it_ndone it + nwritten < it_len it
                then Inr (it\<lparr>it_ndone := it_ndone it + nwritten\<rparr> # q, fd', [])
                else (case proceed_output q fd' of
                        Inl e \<Rightarrow> Inl e
                      | Inr (q', fd'', cbs) \<Rightarrow>
                          Inr (q', fd'', (case it_cb it of None \<Rightarrow> [] | Some c \<Rightarrow> [c]) @ cbs)))"
    using le by (simp add: pending_bytes_def)
  from Cons.prems(1) obtain nw fd1 where
    pd: "push_data fd (pending_bytes it) = Inr (nw, fd1)"
    unfolding unf by (cases "push_data fd (pending_bytes it)") auto
  from push_data_written [OF pd] length_pending_bytes [OF ok]
  have nw: "nw \<le> it_len it - it_ndone it" and w1: "fd_written fd1 = fd_written fd @ take nw (pending_bytes it)"
    by simp_all
  show ?case
  proof (cases "it_ndone it + nw < it_len it")
    case True
    with Cons.prems(1) have res: "q' = it\<lparr>it_ndone := it_ndone it + nw\<rparr> # q" "fd' = fd1" "cbs = []"
      unfolding unf pd by simp_all
    have 1: "task_ok (it\<lparr>it_ndone := it_ndone it + nw\<rparr>)"
      using ok True by (simp add: task_ok_def)
    have 2: "pending_bytes it = take nw (pending_bytes it) @ pending_bytes (it\<lparr>it_ndone := it_ndone it + nw\<rparr>)"
      by (simp add: pending_bytes_advance)
    have 3: "concat (map pending_bytes (it # q)) = take nw (pending_bytes it) @ concat (map pending_bytes q')"
      unfolding res using 2 by simp
    have 4: "\<forall>it\<in>set q'. task_ok it" unfolding res using 1 okq by simp
    have 5: "flushed (it # q) q' (take nw (pending_bytes it)) 0 nw"
      unfolding res using True by (rule flushed_head)
    have 6: "cbs = callbacks_of (take 0 (it # q))" by (simp add: res callbacks_of_def)
    from 3 4 5 6 w1 res(2) show ?thesis by blast
  next
    case False
    with nw have full: "nw = it_len it - it_ndone it" by simp
    with length_pending_bytes [OF ok] have tk: "take nw (pending_bytes it) = pending_bytes it" by simp
    from Cons.prems(1) False obtain cbs' where
      rec: "proceed_output q fd1 = Inr (q', fd', cbs')"
      and cbs: "cbs = (case it_cb it of None \<Rightarrow> [] | Some c \<Rightarrow> [c]) @ cbs'"
      unfolding unf pd by (cases "proceed_output q fd1") auto
    from Cons.IH [OF rec okq] obtain k n w where
      IH: "k \<le> length q" "cbs' = callbacks_of (take k q)" "fd_written fd' = fd_written fd1 @ w"
        "concat (map pending_bytes q) = w @ concat (map pending_bytes q')"
        "\<forall>it\<in>set q'. task_ok it" "flushed q q' w k n"
      by blast
    have 1: "Suc k \<le> length (it # q)" using IH(1) by simp
    have 2: "cbs = callbacks_of (take (Suc k) (it # q))"
      using cbs IH(2) by (simp add: callbacks_of_Cons)
    have 3: "fd_written fd' = fd_written fd @ (pending_bytes it @ w)"
      using IH(3) w1 tk by simp
    have 4: "concat (map pending_bytes (it # q)) = (pending_bytes it @ w) @ concat (map pending_bytes q')"
      using IH(4) by simp
    have 5: "flushed (it # q) q' (pending_bytes it @ w) (Suc k) n"
      using IH(6) by (rule flushed_Cons)
    from 1 2 3 4 5 IH(5) show ?thesis by blast
  qed
qed


lemma task_ok_new_task [simp]: "task_ok (new_task d)"
  by (simp add: task_ok_def new_task_def)

lemma task_ok_ws_task [simp]: "task_ok (ws_task type common chunk)"
  by (simp add: task_ok_def ws_task_def)

lemma task_ok_extended [simp]: "task_ok (push_icb_msg_extended type src)"
  by (auto simp: task_ok_def push_icb_msg_extended_def Let_def split: prod.splits)

lemma ws_loop_task_ok:
  "ws_loop type priv common maxlen src = Inr its \<Longrightarrow> \<forall>it\<in>set its. task_ok it"
proof (induction type priv common maxlen src arbitrary: its rule: ws_loop.induct)
  case (1 type priv common maxlen src)
  show ?case
  proof (cases "length src - ws_msglen type priv maxlen src = 0")
    case True
    with "1.prems" show ?thesis by (subst (asm) ws_loop.simps) auto
  next
    case False
    show ?thesis
    proof (cases "ws_msglen type priv maxlen src = 0")
      case True
      with False "1.prems" show ?thesis by (subst (asm) ws_loop.simps) simp
    next
      case nz: False
      from False nz "1.prems" obtain its' where
        r: "ws_loop type priv common maxlen (drop (ws_msglen type priv maxlen src) src) = Inr its'"
        and its: "its = ws_task type common (take (ws_msglen type priv maxlen src) src) # its'"
        by (subst (asm) ws_loop.simps) (auto split: sum.splits)
      from "1.IH" [OF False nz r] its show ?thesis by simp
    qed
  qed
qed

lemma session_ok_push_stdout_msg [simp]: "session_ok (push_stdout_msg t s) = session_ok s"
  by (auto simp: session_ok_def push_stdout_msg_def)

lemma session_ok_fold_push [simp]: "session_ok (fold push_stdout_msg ts s) = session_ok s"
  by (induction ts arbitrary: s) simp_all

lemma session_ok_updates [simp]:
  "session_ok (s\<lparr>state := a\<rparr>) = session_ok s"
  "session_ok (s\<lparr>want_exit := b\<rparr>) = session_ok s"
  "session_ok (s\<lparr>want_info := c\<rparr>) = session_ok s"
  "session_ok (s\<lparr>pings_sent := d\<rparr>) = session_ok s"
  "session_ok (s\<lparr>last_cmd_has_nl := e\<rparr>) = session_ok s"
  "session_ok (s\<lparr>srv_features := f\<rparr>) = session_ok s"
  by (simp_all add: session_ok_def)

lemma session_ok_push_icb_msg:
  "push_icb_msg pf type src s = Inr s' \<Longrightarrow> session_ok s \<Longrightarrow> session_ok s'"
  by (auto simp: push_icb_msg_def push_icb_msg_ws_def Let_def session_ok_def
      split: if_splits sum.splits dest: ws_loop_task_ok [rule_format])

lemma session_ok_call_handler [simp]: "session_ok (call_handler pf h msg s) = session_ok s"
  by (cases h) (simp_all add: proceed_cmd_result_def proceed_cmd_result_end_def
      proceed_user_list_def proceed_group_list_def)

lemma session_ok_proceed_icb_msg:
  assumes "proceed_icb_msg pf m s = Inr s'" "session_ok s"
  shows "session_ok s'"
  using assms unfolding proceed_icb_msg_def Let_def
  by (auto simp: proceed_chat_msg_def split: if_splits option.splits sum.splits
      dest: session_ok_push_icb_msg)

lemma session_ok_proceed_user_input:
  assumes "proceed_user_input pf l s = Inr s'" "session_ok s"
  shows "session_ok s'"
  using assms unfolding proceed_user_input_def Let_def
  by (auto split: option.splits if_splits sum.splits dest: session_ok_push_icb_msg)

lemma session_ok_step:
  assumes "step pf ev s = Inr s'" "session_ok s"
  shows "session_ok s'"
proof (cases ev)
  case (Net_msg m)
  with assms show ?thesis by (auto dest: session_ok_proceed_icb_msg)
next
  case (User_line l)
  with assms show ?thesis by (auto dest: session_ok_proceed_user_input)
next
  case Keepalive
  with assms show ?thesis
    by (auto simp: keepalive_def split: if_splits sum.splits dest: session_ok_push_icb_msg)
next
  case (Flush_net sc)
  with assms obtain q fd cbs where
    po: "proceed_output (tasks_net s) \<lparr>fd_written = [], fd_script = sc\<rparr> = Inr (q, fd, cbs)"
    and s': "s' = s\<lparr>tasks_net := q\<rparr>"
    by (auto split: sum.splits)
  from assms(2) have "\<forall>it\<in>set (tasks_net s). task_ok it" by (simp add: session_ok_def)
  from proceed_output_correct [OF po this] have "\<forall>it\<in>set q. task_ok it" by blast
  with assms(2) s' show ?thesis by (auto simp: session_ok_def)
next
  case (Flush_stdout sc)
  with assms obtain q fd cbs where
    po: "proceed_output (tasks_stdout s) \<lparr>fd_written = [], fd_script = sc\<rparr> = Inr (q, fd, cbs)"
    and s': "s' = s\<lparr>tasks_stdout := q\<rparr>"
    by (auto split: sum.splits)
  from assms(2) have "\<forall>it\<in>set (tasks_stdout s). task_ok it" by (simp add: session_ok_def)
  from proceed_output_correct [OF po this] have "\<forall>it\<in>set q. task_ok it" by blast
  with assms(2) s' show ?thesis by (auto simp: session_ok_def)
qed (use assms in \<open>auto simp: show_info_def net_closed_def split: if_splits option.splits\<close>)

lemma session_ok_run:
  "run pf evs s = Inr s' \<Longrightarrow> session_ok s \<Longrightarrow> session_ok s'"
proof (induction evs arbitrary: s)
  case Nil
  then show ?case by simp
next
  case (Cons ev evs)
  then show ?case by (auto split: sum.splits dest: session_ok_step)
qed

lemma session_ok_initial: "session_ok (initial_session nk h r)"
  by (simp add: session_ok_def initial_session_def)

text \<open>
  Claim C7. When \<^verbatim>\<open>proceed_output\<close> returns, the tasks it removed were written
  in full and their callbacks ran once each, in order; the task now at the head
  has had its counter advanced by exactly the bytes written from it and is still
  short of its length; the bytes written followed by the bytes still pending are
  exactly the bytes that were pending before; and every task left obeys the
  bound. Over any run from the initial session no task of either queue has its
  counter beyond its length.
\<close>

theorem partial_write_resumption:
  "(proceed_output q fd = Inr (q', fd', cbs) \<longrightarrow> (\<forall>it\<in>set q. task_ok it) \<longrightarrow>
      (\<exists>k n w. k \<le> length q \<and> cbs = callbacks_of (take k q) \<and>
         fd_written fd' = fd_written fd @ w \<and>
         concat (map pending_bytes q) = w @ concat (map pending_bytes q') \<and>
         (\<forall>it\<in>set q'. task_ok it) \<and> flushed q q' w k n)) \<and>
   (run pf evs (initial_session nk h r) = Inr s \<longrightarrow>
      (\<forall>it\<in>set (tasks_net s) \<union> set (tasks_stdout s). it_ndone it \<le> it_len it))"
proof (intro conjI impI)
  assume "proceed_output q fd = Inr (q', fd', cbs)" "\<forall>it\<in>set q. task_ok it"
  then show "\<exists>k n w. k \<le> length q \<and> cbs = callbacks_of (take k q) \<and>
         fd_written fd' = fd_written fd @ w \<and>
         concat (map pending_bytes q) = w @ concat (map pending_bytes q') \<and>
         (\<forall>it\<in>set q'. task_ok it) \<and> flushed q q' w k n"
    by (rule proceed_output_correct)
next
  assume "run pf evs (initial_session nk h r) = Inr s"
  from session_ok_run [OF this session_ok_initial]
  show "\<forall>it\<in>set (tasks_net s) \<union> set (tasks_stdout s). it_ndone it \<le> it_len it"
    by (simp add: session_ok_def task_ok_def)
qed

lemma push_data_loop_Wrote:
  "data \<noteq> [] \<Longrightarrow> push_data_loop w (Wrote n # sc) data =
     (case push_data_loop (w @ take n data) sc (drop n data) of
        Inl e \<Rightarrow> Inl e
      | Inr (tot, fd) \<Rightarrow> Inr (min n (length data) + tot, fd))"
  by (cases data) auto

lemma push_data_loop_EAGAIN:
  "data \<noteq> [] \<Longrightarrow> push_data_loop w (EAGAIN # sc) data = Inr (0, \<lparr>fd_written = w, fd_script = sc\<rparr>)"
  by (cases data) simp_all

lemma sample_flush_1:
  "proceed_output [sample_task] \<lparr>fd_written = [], fd_script = [Wrote 40, EAGAIN]\<rparr> =
     Inr ([sample_task\<lparr>it_ndone := 40\<rparr>], \<lparr>fd_written = replicate 40 (CHR ''x''), fd_script = []\<rparr>, [])"
  by (simp add: sample_task_def push_data_def push_data_loop_Wrote push_data_loop_EAGAIN)

lemma sample_flush_2:
  "proceed_output [sample_task\<lparr>it_ndone := 40\<rparr>] \<lparr>fd_written = replicate 40 (CHR ''x''), fd_script = [Wrote 60]\<rparr> =
     Inr ([], \<lparr>fd_written = replicate 100 (CHR ''x''), fd_script = []\<rparr>, [1])"
  by (simp add: sample_task_def push_data_def push_data_loop_Wrote flip: replicate_add)


text \<open>A task of 100 bytes of which the descriptor first takes 40.\<close>

theorem partial_write_resumption_witness:
  "proceed_output [sample_task] \<lparr>fd_written = [], fd_script = [Wrote 40, EAGAIN]\<rparr> =
     Inr ([sample_task\<lparr>it_ndone := 40\<rparr>], \<lparr>fd_written = replicate 40 (CHR ''x''), fd_script = []\<rparr>, []) \<and>
   task_ok sample_task \<and>
   pending_bytes sample_task = replicate 40 (CHR ''x'') @ pending_bytes (sample_task\<lparr>it_ndone := 40\<rparr>) \<and>
   task_ok (sample_task\<lparr>it_ndone := 40\<rparr>) \<and>
   run sample_platform [Connect_done] (initial_session ''me'' ''host'' ''room'') =
     Inr (push_stdout_msg (''connected'' @ [CHR 0x0A]) (initial_session ''me'' ''host'' ''room'')\<lparr>state := Connected\<rparr>) \<and>
   list_all (\<lambda>it. it_ndone it \<le> it_len it)
     (tasks_stdout (push_stdout_msg (''connected'' @ [CHR 0x0A]) (initial_session ''me'' ''host'' ''room'')\<lparr>state := Connected\<rparr>))"
proof -
  let ?fd = "\<lparr>fd_written = [], fd_script = [Wrote 40, EAGAIN]\<rparr>"
  let ?fd' = "\<lparr>fd_written = replicate 40 (CHR ''x''), fd_script = []\<rparr>"
  let ?q' = "[sample_task\<lparr>it_ndone := 40\<rparr>]"
  let ?s1 = "push_stdout_msg (''connected'' @ [CHR 0x0A]) (initial_session ''me'' ''host'' ''room'')\<lparr>state := Connected\<rparr>"
  have ok1: "task_ok sample_task"
    by (simp add: task_ok_def sample_task_def)
  then have ok: "\<forall>it\<in>set [sample_task]. task_ok it" by simp
  have r: "run sample_platform [Connect_done] (initial_session ''me'' ''host'' ''room'') = Inr ?s1"
    by (simp add: initial_session_def)
  note t = partial_write_resumption [where q = "[sample_task]" and fd = ?fd and q' = ?q'
      and fd' = ?fd' and cbs = "[]" and pf = sample_platform and evs = "[Connect_done]"
      and nk = "''me''" and h = "''host''" and r = "''room''" and s = ?s1]
  from t sample_flush_1 ok obtain k n w where
    w: "fd_written ?fd' = fd_written ?fd @ w"
    and p: "concat (map pending_bytes [sample_task]) = w @ concat (map pending_bytes ?q')"
    and o: "\<forall>it\<in>set ?q'. task_ok it"
    by blast
  from w have "w = replicate 40 (CHR ''x'')" by simp
  with p have 1: "pending_bytes sample_task = replicate 40 (CHR ''x'') @ pending_bytes (sample_task\<lparr>it_ndone := 40\<rparr>)"
    by simp
  from o have 2: "task_ok (sample_task\<lparr>it_ndone := 40\<rparr>)" by simp
  from t r have "\<forall>it\<in>set (tasks_stdout ?s1). it_ndone it \<le> it_len it" by blast
  then have 3: "list_all (\<lambda>it. it_ndone it \<le> it_len it) (tasks_stdout ?s1)"
    by (simp add: list_all_iff)
  from sample_flush_1 ok1 1 2 r 3 show ?thesis by blast
qed

section \<open>Claims about the encoders\<close>

lemma ws_task_wire:
  assumes "length chunk + length common \<le> 253"
  shows "length (it_data (ws_task type common chunk)) = it_len (ws_task type common chunk)"
    "(of_char (hd (it_data (ws_task type common chunk))) :: nat) + 1 = it_len (ws_task type common chunk)"
  using assms by (simp_all add: ws_task_def)

text \<open>
  Claim C2. With a nickname that \<^verbatim>\<open>main\<close> accepts (shorter than \<^verbatim>\<open>NICKNAME_MAX\<close>),
  \<^verbatim>\<open>push_icb_msg_ws\<close> returns, and every packet it queues is as long on the wire
  as its length byte says plus one, is at most 255 bytes, and carries, beyond the
  repeated common prefix, at most 253 minus the nickname length bytes of payload.
\<close>

theorem ws_chunk_bound:
  assumes "strlen nk < NICKNAME_MAX pf"
  shows "\<exists>its. push_icb_msg_ws pf nk type msg = Inr its \<and>
           (\<forall>it\<in>set its.
              length (it_data it) = it_len it \<and>
              (of_char (hd (it_data it)) :: nat) + 1 = it_len it \<and>
              it_len it \<le> 255 \<and>
              length (task_payload it) - ws_commonlen pf type msg \<le> 253 - strlen nk)"
proof -
  let ?cl = "ws_commonlen pf type msg"
  from push_icb_msg_ws_chunks [OF assms, of type msg]
  obtain chunks where ch: "push_icb_msg_ws pf nk type msg = Inr (map (ws_task type (take ?cl msg)) chunks)"
    and bd: "\<forall>c\<in>set chunks. length c \<le> 252 - strlen nk - ?cl"
    by blast
  have cl: "length (take ?cl msg) = ?cl" using ws_commonlen_le(2) [of pf type msg] by simp
  have nk: "strlen nk + ?cl \<le> 131"
    using assms ws_commonlen_le(1) [of pf type msg] NICKNAME_MAX_le [of pf] by simp
  have "length (it_data it) = it_len it \<and> (of_char (hd (it_data it)) :: nat) + 1 = it_len it \<and>
        it_len it \<le> 255 \<and> length (task_payload it) - ?cl \<le> 253 - strlen nk"
    if "it \<in> set (map (ws_task type (take ?cl msg)) chunks)" for it
  proof -
    from that obtain c where c: "c \<in> set chunks" and it: "it = ws_task type (take ?cl msg) c"
      by auto
    from bd c have len: "length c \<le> 252 - strlen nk - ?cl" by blast
    with nk cl have le2: "length c + length (take ?cl msg) \<le> 252" by simp
    then have le: "length c + length (take ?cl msg) \<le> 253" by simp
    have 1: "it_len it \<le> 255" unfolding it using le2 by (simp add: ws_task_def)
    have 2: "length (task_payload it) - ?cl \<le> 253 - strlen nk"
      unfolding it using len nk cl by simp
    from ws_task_wire [OF le, of type] 1 2 show ?thesis
      unfolding it by blast
  qed
  with ch show ?thesis by blast
qed


text \<open>The bound on a short open message.\<close>

theorem ws_chunk_bound_witness:
  "strlen ''me'' < NICKNAME_MAX sample_platform \<and>
   (\<exists>its. push_icb_msg_ws sample_platform ''me'' (CHR ''b'') ''hello'' = Inr its \<and>
      (\<forall>it\<in>set its.
         length (it_data it) = it_len it \<and>
         (of_char (hd (it_data it)) :: nat) + 1 = it_len it \<and>
         it_len it \<le> 255 \<and>
         length (task_payload it) - ws_commonlen sample_platform (CHR ''b'') ''hello'' \<le> 253 - strlen ''me''))"
proof -
  have n: "strlen ''me'' < NICKNAME_MAX sample_platform"
    by (simp add: strlen_def cstr_def NICKNAME_MAX_def sample_platform_def)
  from n ws_chunk_bound [OF n, of "CHR ''b''" "''hello''"] show ?thesis by blast
qed

lemma find_break_eq_None:
  assumes "\<forall>j. 1 \<le> j \<and> j \<le> i \<longrightarrow> \<not> (isblank (src ! j) \<or> ispunct (src ! j))"
  shows "find_break src i = None"
proof (cases "find_break src i")
  case (Some p)
  from find_break_Some [OF this] assms show ?thesis by blast
qed simp

lemma find_break_eq_Some:
  assumes "1 \<le> p" "p \<le> i" "isblank (src ! p) \<or> ispunct (src ! p)"
    and "\<forall>j. p < j \<and> j \<le> i \<longrightarrow> \<not> (isblank (src ! j) \<or> ispunct (src ! j))"
  shows "find_break src i = Some p"
proof (cases "find_break src i")
  case None
  from find_break_None [OF this] assms show ?thesis by blast
next
  case (Some q)
  from find_break_Some [OF this] have q: "1 \<le> q" "q \<le> i" "isblank (src ! q) \<or> ispunct (src ! q)"
    "\<forall>j. q < j \<and> j \<le> i \<longrightarrow> \<not> (isblank (src ! j) \<or> ispunct (src ! j))"
    by blast+
  have "\<not> q < p" using q(4) assms(2,3) by blast
  moreover have "\<not> p < q" using assms(4) q(2,3) by blast
  ultimately show ?thesis using Some by simp
qed

lemma ws_msglen_no_break:
  assumes "maxlen < length src"
    and "\<forall>j. 1 \<le> j \<and> j < maxlen \<longrightarrow> \<not> (isblank (src ! j) \<or> ispunct (src ! j))"
  shows "ws_msglen type priv maxlen src = maxlen"
proof -
  have "find_break src (maxlen - 1) = None"
    using assms(2) by (intro find_break_eq_None) auto
  with assms(1) show ?thesis by (simp add: ws_msglen_def)
qed

lemma ws_msglen_break:
  assumes "maxlen < length src" "type = CHR ''b'' \<or> priv"
    and "1 \<le> p" "p < maxlen" "isblank (src ! p) \<or> ispunct (src ! p)"
    and "\<forall>j. p < j \<and> j < maxlen \<longrightarrow> \<not> (isblank (src ! j) \<or> ispunct (src ! j))"
  shows "ws_msglen type priv maxlen src = p + 1"
proof -
  have "find_break src (maxlen - 1) = Some p"
    using assms(3-6) by (intro find_break_eq_Some) auto
  with assms(1,2) show ?thesis by (simp add: ws_msglen_def)
qed

lemma ws_first_chunk:
  assumes "strlen nk < NICKNAME_MAX pf"
  shows "\<exists>its. push_icb_msg_ws pf nk type msg = Inr its \<and>
           hd its = ws_task type (take (ws_commonlen pf type msg) msg)
             (take (ws_msglen type (privmsg type msg) (ws_maxlen nk (ws_commonlen pf type msg))
                      (drop (ws_commonlen pf type msg) msg))
                (drop (ws_commonlen pf type msg) msg))"
proof -
  from push_icb_msg_ws_chunks [OF assms, of type msg]
  obtain chunks where ch: "push_icb_msg_ws pf nk type msg =
      Inr (map (ws_task type (take (ws_commonlen pf type msg) msg)) chunks)"
    "chunks \<noteq> []"
    "hd chunks = take (ws_msglen type (privmsg type msg) (ws_maxlen nk (ws_commonlen pf type msg))
                      (drop (ws_commonlen pf type msg) msg))
                (drop (ws_commonlen pf type msg) msg)"
    by blast
  from ch(2,3) have "hd (map (ws_task type (take (ws_commonlen pf type msg) msg)) chunks) =
      ws_task type (take (ws_commonlen pf type msg) msg)
             (take (ws_msglen type (privmsg type msg) (ws_maxlen nk (ws_commonlen pf type msg))
                      (drop (ws_commonlen pf type msg) msg))
                (drop (ws_commonlen pf type msg) msg))"
    by (simp add: hd_map)
  with ch(1) show ?thesis by blast
qed

text \<open>
  Claim C6, as amended. For an open message (type \<open>b\<close>) or a private message
  whose remainder is longer than the limit, the first chunk ends immediately
  after the last blank or punctuation byte found at the offsets 1 to limit - 1 of
  the remainder; the byte at offset 0 is not considered, and when there is no
  such byte at those offsets the chunk is cut at the limit.
\<close>

theorem ws_word_boundary:
  assumes "strlen nk < NICKNAME_MAX pf" and "type = CHR ''b'' \<or> privmsg type msg"
    and "cl = ws_commonlen pf type msg" and "src = drop cl msg"
    and "maxlen = ws_maxlen nk cl" and "maxlen < length src"
  shows "\<exists>its. push_icb_msg_ws pf nk type msg = Inr its \<and>
           ((\<forall>j. 1 \<le> j \<and> j < maxlen \<longrightarrow> \<not> (isblank (src ! j) \<or> ispunct (src ! j))) \<longrightarrow>
              hd its = ws_task type (take cl msg) (take maxlen src)) \<and>
           (\<forall>p. 1 \<le> p \<and> p < maxlen \<and> (isblank (src ! p) \<or> ispunct (src ! p)) \<and>
                 (\<forall>j. p < j \<and> j < maxlen \<longrightarrow> \<not> (isblank (src ! j) \<or> ispunct (src ! j))) \<longrightarrow>
              hd its = ws_task type (take cl msg) (take (p + 1) src))"
proof -
  from ws_first_chunk [OF assms(1), of type msg] assms(3,4,5)
  obtain its where its: "push_icb_msg_ws pf nk type msg = Inr its"
    "hd its = ws_task type (take cl msg) (take (ws_msglen type (privmsg type msg) maxlen src) src)"
    by auto
  have 1: "hd its = ws_task type (take cl msg) (take maxlen src)"
    if "\<forall>j. 1 \<le> j \<and> j < maxlen \<longrightarrow> \<not> (isblank (src ! j) \<or> ispunct (src ! j))"
    using ws_msglen_no_break [OF assms(6) that] its(2) by simp
  have 2: "hd its = ws_task type (take cl msg) (take (p + 1) src)"
    if "1 \<le> p \<and> p < maxlen \<and> (isblank (src ! p) \<or> ispunct (src ! p)) \<and>
        (\<forall>j. p < j \<and> j < maxlen \<longrightarrow> \<not> (isblank (src ! j) \<or> ispunct (src ! j)))" for p
  proof -
    from that have "ws_msglen type (privmsg type msg) maxlen src = p + 1"
      using assms(2,6) by (intro ws_msglen_break) auto
    with its(2) show ?thesis by simp
  qed
  from its(1) 1 2 show ?thesis by blast
qed


lemma sample_strlen_me: "strlen ''me'' < NICKNAME_MAX sample_platform"
  by (simp add: strlen_def cstr_def NICKNAME_MAX_def sample_platform_def)

lemma sample_maxlen: "ws_maxlen ''me'' 0 = 250"
  by (simp add: ws_maxlen_def strlen_def cstr_def)

lemma not_break_letter:
  "\<not> (isblank (CHR ''a'') \<or> ispunct (CHR ''a''))" "\<not> (isblank (CHR ''b'') \<or> ispunct (CHR ''b''))"
  by (simp_all add: isblank_def ispunct_def)

text \<open>A blank at offset 100 of an open message of 301 bytes ends the first chunk.\<close>

theorem ws_word_boundary_witness:
  "\<exists>its. push_icb_msg_ws sample_platform ''me'' (CHR ''b'')
            (replicate 100 (CHR ''a'') @ CHR '' '' # replicate 200 (CHR ''b'')) = Inr its \<and>
         hd its = ws_task (CHR ''b'') [] (replicate 100 (CHR ''a'') @ [CHR '' ''])"
proof -
  let ?msg = "replicate 100 (CHR ''a'') @ CHR '' '' # replicate 200 (CHR ''b'')"
  have cl: "0 = ws_commonlen sample_platform (CHR ''b'') ?msg"
    by (simp add: ws_commonlen_def privmsg_def)
  have src: "?msg = drop 0 ?msg" by simp
  have ml: "250 = ws_maxlen ''me'' 0" by (simp add: sample_maxlen)
  have len: "250 < length ?msg" by simp
  have b: "isblank (?msg ! 100) \<or> ispunct (?msg ! 100)"
    by (simp add: nth_append isblank_def)
  have nb: "\<not> (isblank (?msg ! j) \<or> ispunct (?msg ! j))" if "100 < j \<and> j < 250" for j
  proof -
    from that have "j - 101 < 200" by arith
    with that have "?msg ! j = CHR ''b''" by (simp add: nth_append nth_Cons')
    then show ?thesis using not_break_letter(2) by simp
  qed
  from ws_word_boundary [OF sample_strlen_me _ cl src ml len]
  obtain its where its: "push_icb_msg_ws sample_platform ''me'' (CHR ''b'') ?msg = Inr its"
    and br: "\<forall>p. 1 \<le> p \<and> p < 250 \<and> (isblank (?msg ! p) \<or> ispunct (?msg ! p)) \<and>
                 (\<forall>j. p < j \<and> j < 250 \<longrightarrow> \<not> (isblank (?msg ! j) \<or> ispunct (?msg ! j))) \<longrightarrow>
              hd its = ws_task (CHR ''b'') (take 0 ?msg) (take (p + 1) ?msg)"
    by blast
  from br [rule_format, of 100] b nb
  have "hd its = ws_task (CHR ''b'') (take 0 ?msg) (take (100 + 1) ?msg)" by simp
  then have "hd its = ws_task (CHR ''b'') [] (replicate 100 (CHR ''a'') @ [CHR '' ''])" by simp
  with its show ?thesis by blast
qed

text \<open>
  Claim C6 as stated fails when the only blank within the limit is the first
  byte: the loop stops before offset 0 (\<^verbatim>\<open>p > src\<close>) and the chunk is cut at the
  limit of 250 bytes, inside the word.
\<close>

theorem leading_blank_counterexample:
  "first_payload (push_icb_msg_ws sample_platform ''me'' (CHR ''b'') (CHR '' '' # replicate 300 (CHR ''a''))) =
     Inr (CHR '' '' # replicate 249 (CHR ''a''))"
proof -
  let ?msg = "CHR '' '' # replicate 300 (CHR ''a'')"
  have cl: "ws_commonlen sample_platform (CHR ''b'') ?msg = 0"
    by (simp add: ws_commonlen_def privmsg_def)
  have nb: "\<forall>j. 1 \<le> j \<and> j < 250 \<longrightarrow> \<not> (isblank (?msg ! j) \<or> ispunct (?msg ! j))"
  proof (intro allI impI)
    fix j :: nat
    assume j: "1 \<le> j \<and> j < 250"
    then have "j - 1 < 300" by arith
    with j have "?msg ! j = CHR ''a''" by (simp add: nth_Cons')
    then show "\<not> (isblank (?msg ! j) \<or> ispunct (?msg ! j))"
      using not_break_letter(1) by simp
  qed
  have "ws_msglen (CHR ''b'') (privmsg (CHR ''b'') ?msg) 250 ?msg = 250"
    using nb by (intro ws_msglen_no_break) simp_all
  with ws_first_chunk [OF sample_strlen_me, of "CHR ''b''" ?msg] cl sample_maxlen
  obtain its where "push_icb_msg_ws sample_platform ''me'' (CHR ''b'') ?msg = Inr its"
    "hd its = ws_task (CHR ''b'') [] (take 250 ?msg)"
    by auto
  then show ?thesis by (simp add: first_payload_def)
qed

text \<open>
  Claim C3 at a payload of 253 bytes. With the terminator the message is 254
  bytes, \<^verbatim>\<open>len % 254\<close> is 0, and the only slot gets the length byte 1 and no payload
  at all: the task is the length byte, the type and 254 zero bytes.
\<close>

theorem ext_final_slot_lost:
  "push_icb_msg_extended (CHR ''b'') (replicate 253 (CHR ''x'')) =
     \<lparr>it_len = 256, it_ndone = 0, it_cb = None,
      it_data = CHR 0x01 # CHR ''b'' # replicate 254 NUL\<rparr>"
proof -
  have c: "char_of (Suc 0) = CHR 0x01" by code_simp
  have r: "replicate 256 NUL = NUL # NUL # replicate 254 NUL"
    by (simp add: numeral_eq_Suc)
  have "take 256 (CHR 0x01 # CHR ''b'' # replicate 256 NUL) = CHR 0x01 # CHR ''b'' # replicate 254 NUL"
    by (simp add: take_Cons')
  then show ?thesis
    by (simp add: push_icb_msg_extended_def Let_def c)
qed

text \<open>Up to 252 bytes the extended packet is the standard one.\<close>

lemma push_icb_msg_extended_single:
  assumes "length src \<le> 252"
  shows "push_icb_msg_extended type src = ws_task type [] src"
proof -
  have 1: "(length src + 1 + 253) div 254 = 1" using assms by simp
  have 2: "(length src + 1) mod 254 mod 256 = length src + 1" using assms by simp
  show ?thesis
    unfolding push_icb_msg_extended_def Let_def 1 2
    by (simp add: ws_task_def)
qed

section \<open>Properties of the decoder\<close>

declare read_loop.simps [simp del] find_last.simps [simp del] compact.simps [simp del]

lemma grow_props:
  assumes "length b = bs" "br < bs"
  shows "length (fst (grow pf b br bs)) = snd (grow pf b br bs)"
    "br + 1 < snd (grow pf b br bs)"
    "take br (fst (grow pf b br bs)) = take br b"
  using assms by (auto simp: grow_def)

lemma take_spliced:
  "length xs = n \<Longrightarrow> length ys = k \<Longrightarrow> take (n + k) (xs @ ys @ zs) = xs @ ys"
  by simp

lemma read_loop_all:
  assumes "length b = bs" "br < bs" "br + length pend < 1048575"
  shows "\<exists>b' bs'. read_loop pf False pend b br bs rr =
             Inr ([], b', br + length pend, bs', rr + length pend) \<and>
           length b' = bs' \<and> br + length pend < bs' \<and>
           take (br + length pend) b' = take br b @ pend"
  using assms
proof (induction pend arbitrary: b br bs rr rule: length_induct)
  case (1 pend)
  define b1 where "b1 = fst (grow pf b br bs)"
  define bs1 where "bs1 = snd (grow pf b br bs)"
  note g = grow_props [OF "1.prems"(1,2), of pf, folded b1_def bs1_def]
  have nt: "\<not> (br = bs - 1 \<and> 1024 * 1024 \<le> bs)" using "1.prems"(2,3) by auto
  have nf: "\<not> bs1 \<le> br + 1" using g(2) by simp
  have unf: "read_loop pf False pend b br bs rr =
     (if pend = [] then Inr (pend, b1, br, bs1, rr)
      else read_loop pf False (drop (bs1 - br - 1) pend)
             (take br b1 @ take (bs1 - br - 1) pend @
              drop (br + min (bs1 - br - 1) (length pend)) b1)
             (br + min (bs1 - br - 1) (length pend)) bs1
             (rr + min (bs1 - br - 1) (length pend)))"
  proof -
    have nf': "\<not> snd (grow pf b br bs) \<le> br + 1" using nf unfolding bs1_def .
    show ?thesis unfolding b1_def bs1_def
      by (subst read_loop.simps) (simp only: nt nf' if_False)
  qed
  show ?case
  proof (cases "pend = []")
    case True
    with unf g show ?thesis by simp
  next
    case False
    define cnt where "cnt = bs1 - br - 1"
    define k where "k = min cnt (length pend)"
    define b2 where "b2 = take br b1 @ take cnt pend @ drop (br + k) b1"
    define pend' where "pend' = drop cnt pend"
    from False g(2) have k: "0 < k" by (simp add: k_def cnt_def)
    have kb: "br + k < bs1" using g(2) by (simp add: k_def cnt_def)
    have lx: "length (take br b1) = br" using g(1,2) by simp
    have ly: "length (take cnt pend) = k" by (simp add: k_def min.commute)
    have len2: "length b2 = bs1" using g(1) kb lx ly unfolding b2_def by simp
    have tk: "take cnt pend = take k pend" by (simp add: k_def min_def)
    have dk: "pend' = drop k pend" by (simp add: pend'_def k_def min_def)
    have kl: "k \<le> length pend" by (simp add: k_def)
    have sum: "k + length pend' = length pend" using kl by (simp add: dk)
    have shorter: "length pend' < length pend" using k sum by simp
    have bound: "br + k + length pend' < 1048575"
      using "1.prems"(3) sum by simp
    from "1.IH" [rule_format, OF shorter len2 kb bound, of "rr + k"]
    obtain b' bs' where r: "read_loop pf False pend' b2 (br + k) bs1 (rr + k) =
        Inr ([], b', br + k + length pend', bs', rr + k + length pend')"
      and l: "length b' = bs'" and lt: "br + k + length pend' < bs'"
      and t: "take (br + k + length pend') b' = take (br + k) b2 @ pend'"
      by blast
    have "take (br + k) b2 = take br b1 @ take cnt pend"
      unfolding b2_def using lx ly by (rule take_spliced)
    then have "take (br + k) b2 = take br b @ take k pend"
      by (simp only: g(3) tk)
    with t have "take (br + k + length pend') b' = take br b @ take k pend @ drop k pend"
      by (simp add: dk)
    then have t': "take (br + k + length pend') b' = take br b @ pend" by simp
    have eq: "br + k + length pend' = br + length pend" "rr + k + length pend' = rr + length pend"
      using sum by simp_all
    have "read_loop pf False pend b br bs rr = read_loop pf False pend' b2 (br + k) bs1 (rr + k)"
      using False unf unfolding pend'_def b2_def k_def cnt_def by simp
    with r have "read_loop pf False pend b br bs rr =
        Inr ([], b', br + k + length pend', bs', rr + k + length pend')"
      by simp
    with l lt t' show ?thesis unfolding eq by blast
  qed
qed

lemma dec_reset_ok:
  assumes "decoder_ok d"
  shows "\<exists>b0. dec_reset pf d = Inr (b0, length (unread d)) \<and> length b0 = bufsize d \<and>
           length (unread d) < bufsize d \<and> take (length (unread d)) b0 = unread d"
proof (cases "buf d")
  case None
  with assms show ?thesis by (simp add: decoder_ok_def unread_def dec_reset_def)
next
  case (Some b)
  show ?thesis
  proof (cases "msgend d")
    case None
    with Some assms show ?thesis by (simp add: decoder_ok_def unread_def dec_reset_def)
  next
    case (Some e)
    with \<open>buf d = Some b\<close> assms have ok: "length b = bufsize d" "bufread d < bufsize d" "e \<le> bufread d"
      by (simp_all add: decoder_ok_def)
    have u: "unread d = take (bufread d - e) (drop e b)"
      using Some \<open>buf d = Some b\<close> by (simp add: unread_def)
    have lu: "length (unread d) = bufread d - e" using ok by (simp add: u)
    have r: "dec_reset pf d = Inr (memmove b 0 e (bufread d - e), bufread d - e)"
      using Some \<open>buf d = Some b\<close> ok by (simp add: dec_reset_def)
    have m: "memmove b 0 e (bufread d - e) = unread d @ drop (bufread d - e) b"
      by (simp add: memmove_def u)
    have "length (memmove b 0 e (bufread d - e)) = bufsize d"
      unfolding m using lu ok by simp
    moreover have "take (length (unread d)) (memmove b 0 e (bufread d - e)) = unread d"
      unfolding m by simp
    ultimately show ?thesis using r lu ok by simp
  qed
qed

lemma char_of_length_byte:
  assumes "n \<le> 253"
  shows "char_of (n + 2) \<noteq> NUL" "(of_char (char_of (n + 2)) :: nat) = n + 2"
proof -
  show "(of_char (char_of (n + 2)) :: nat) = n + 2" using assms by simp
  then have "(of_char (char_of (n + 2)) :: nat) \<noteq> of_char NUL" by simp
  then show "char_of (n + 2) \<noteq> NUL" by metis
qed

lemma prefix_nth:
  assumes "take br b = p @ rest" "i < length p"
  shows "b ! i = p ! i"
proof -
  from assms have "i < br" by (metis length_append length_take min.strict_boundedE trans_less_add1)
  then have "b ! i = take br b ! i" by simp
  with assms show ?thesis by (simp add: nth_append)
qed

lemma compact_single: "compact b br 0 0 = Inr (b, br)"
  by (subst compact.simps, simp, subst compact.simps, simp)

lemma find_last_nonzero: "b ! 0 \<noteq> NUL \<Longrightarrow> find_last b br 0 = Some 0"
  by (subst find_last.simps) simp

lemma parse_packet:
  assumes pre: "take br b = packet t body @ rest" and n: "length body \<le> 253"
  shows "find_last b br 0 = Some 0" "(of_char (b ! 0) :: nat) = length body + 2"
    "length body + 3 \<le> br" "b ! (length body + 2) = NUL"
    "take (length body + 1) (drop 1 b) = t # body"
    "take (br - (length body + 3)) (drop (length body + 3) b) = rest"
proof -
  have lp: "length (packet t body) = length body + 3" by (simp add: packet_def)
  have b0: "b ! 0 = char_of (length body + 2)"
    using prefix_nth [OF pre, of 0] by (simp add: packet_def)
  with char_of_length_byte [OF n] show "find_last b br 0 = Some 0"
    by (simp add: find_last_nonzero)
  from b0 char_of_length_byte [OF n] show "(of_char (b ! 0) :: nat) = length body + 2" by simp
  from pre lp show br: "length body + 3 \<le> br"
    by (metis le_add1 length_append length_take min.cobounded2 order_trans)
  have "b ! (length body + 2) = packet t body ! (length body + 2)"
    using prefix_nth [OF pre, of "length body + 2"] lp by simp
  then show "b ! (length body + 2) = NUL" by (simp add: packet_def nth_append)
  have "take (length body + 3) (take br b) = packet t body" using pre lp by simp
  with br have tp: "take (length body + 3) b = packet t body" by (simp add: min_absorb1)
  have "take (length body + 1) (drop 1 b) = take (length body + 1) (drop 1 (take (length body + 3) b))"
    by (simp add: drop_take)
  then show "take (length body + 1) (drop 1 b) = t # body"
    unfolding tp by (simp add: packet_def)
  have "take (br - (length body + 3)) (drop (length body + 3) b) = drop (length body + 3) (take br b)"
    by (simp add: drop_take)
  then show "take (br - (length body + 3)) (drop (length body + 3) b) = rest"
    unfolding pre using lp by simp
qed

lemma terminate_msg_present: "b ! (e - 1) = NUL \<Longrightarrow> terminate_msg b br e = Inr (b, br, e)"
  by (simp add: terminate_msg_def)

lemma extract_msg_packet:
  assumes pre: "take br b = packet t body @ rest" and n: "length body \<le> 253"
  shows "extract_msg b br = Inr (Some (b, br, length body + 3))"
proof -
  note p = parse_packet [OF pre n]
  have nl: "\<not> br < 0 + (of_char (b ! 0) :: nat)" using p(2,3) by simp
  have e: "0 + 1 + (of_char (b ! 0) :: nat) = length body + 3" using p(2) by simp
  have "b ! (length body + 3 - 1) = NUL" using p(4) by simp
  then have tm: "terminate_msg b br (length body + 3) = Inr (b, br, length body + 3)"
    by (rule terminate_msg_present)
  show ?thesis
    unfolding extract_msg_def p(1) option.case if_not_P [OF nl] compact_single e
    by (simp add: tm)
qed

lemma get_next_icb_msg_packet:
  assumes ok: "decoder_ok d"
    and stream: "unread d @ sock_pending sk = packet t body @ rest"
    and n: "length body \<le> 253"
    and sk: "\<not> sock_failed sk" "\<not> sock_closed sk"
    and bound: "length (unread d) + length (sock_pending sk) < 1048575"
  shows "\<exists>d'. get_next_icb_msg pf sk d s = Inr (Some (t # body), sk\<lparr>sock_pending := []\<rparr>, d', s) \<and>
           decoder_ok d' \<and> unread d' = rest"
proof -
  from dec_reset_ok [OF ok, of pf] obtain b0 where
    reset: "dec_reset pf d = Inr (b0, length (unread d))"
    and l0: "length b0 = bufsize d" and r0: "length (unread d) < bufsize d"
    and t0: "take (length (unread d)) b0 = unread d"
    by blast
  define br where "br = length (unread d) + length (sock_pending sk)"
  from read_loop_all [OF l0 r0 bound, of pf 0] obtain b bs where
    rd: "read_loop pf False (sock_pending sk) b0 (length (unread d)) (bufsize d) 0 =
           Inr ([], b, br, bs, length (sock_pending sk))"
    and lb: "length b = bs" and rb: "br < bs"
    and tb: "take br b = take (length (unread d)) b0 @ sock_pending sk"
    unfolding br_def by auto
  from tb t0 stream have pre: "take br b = packet t body @ rest" by simp
  note p = parse_packet [OF pre n]
  note ex = extract_msg_packet [OF pre n]
  have nz: "\<not> (br = 0 \<and> length (sock_pending sk) = 0)" using p(3) by simp
  define d' where "d' = \<lparr>buf = Some b, msgend = Some (length body + 3), bufread = br, bufsize = bs\<rparr>"
  have rd': "read_loop pf (sock_failed sk) (sock_pending sk) b0 (length (unread d)) (bufsize d) 0 =
           Inr ([], b, br, bs, length (sock_pending sk))"
    using rd sk(1) by simp
  have msg: "take (length body + 3 - 2) (drop 1 b) = t # body" using p(5) by simp
  have res: "get_next_icb_msg pf sk d s = Inr (Some (t # body), sk\<lparr>sock_pending := []\<rparr>, d', s)"
    unfolding get_next_icb_msg_def reset rd' Let_def sum.case prod.case if_not_P [OF nz] ex
      option.case msg d'_def
    using sk(2) by simp
  have "decoder_ok d'" using lb rb p(3) by (simp add: decoder_ok_def d'_def)
  moreover have "unread d' = rest" using p(6) by (simp add: unread_def d'_def)
  ultimately show ?thesis using res by blast
qed

lemma get_next_icb_msg_drained:
  assumes ok: "decoder_ok d" and "unread d = []" "sock_pending sk = []"
    and sk: "\<not> sock_failed sk" "\<not> sock_closed sk"
  shows "\<exists>d'. get_next_icb_msg pf sk d s = Inr (None, sk, d', s)"
proof -
  from dec_reset_ok [OF ok, of pf] assms(2) obtain b0 where
    reset: "dec_reset pf d = Inr (b0, 0)"
    and l0: "length b0 = bufsize d" and r0: "0 < bufsize d"
    by auto
  from read_loop_all [OF l0 r0, of "[]" pf 0] obtain b bs where
    rd: "read_loop pf False [] b0 0 (bufsize d) 0 = Inr ([], b, 0, bs, 0)"
    by auto
  have "sk\<lparr>sock_pending := []\<rparr> = sk" using assms(3) by simp
  then show ?thesis
    unfolding get_next_icb_msg_def reset using sk assms(3)
    by (simp add: rd Let_def)
qed

lemma decode_stream_packets:
  assumes "decoder_ok d"
    and "unread d @ sock_pending sk = concat (map (\<lambda>(t, body). packet t body) ps)"
    and "\<forall>(t, body)\<in>set ps. length body \<le> 253"
    and "\<not> sock_failed sk" "\<not> sock_closed sk" "\<not> want_exit s"
    and "length (unread d) + length (sock_pending sk) < 1048575"
  shows "\<exists>d'. decode_stream (Suc (length ps)) pf sk d s =
           Some (Inr (map (\<lambda>(t, body). t # body) ps, sk\<lparr>sock_pending := []\<rparr>, d', s))"
  using assms
proof (induction ps arbitrary: d sk)
  case Nil
  then have "unread d = []" "sock_pending sk = []" by simp_all
  from get_next_icb_msg_drained [OF Nil.prems(1) this Nil.prems(4,5), of pf s]
  obtain d' where "get_next_icb_msg pf sk d s = Inr (None, sk, d', s)" by blast
  moreover have "sk\<lparr>sock_pending := []\<rparr> = sk" using \<open>sock_pending sk = []\<close> by simp
  ultimately show ?case using Nil.prems(6) by simp
next
  case (Cons p ps)
  obtain t body where p: "p = (t, body)" by (cases p)
  from Cons.prems(2) have stream: "unread d @ sock_pending sk =
      packet t body @ concat (map (\<lambda>(t, body). packet t body) ps)"
    by (simp add: p)
  from Cons.prems(3) have n: "length body \<le> 253" and ns: "\<forall>(t, body)\<in>set ps. length body \<le> 253"
    by (simp_all add: p)
  from get_next_icb_msg_packet [OF Cons.prems(1) stream n Cons.prems(4,5,7), of pf s]
  obtain d1 where g: "get_next_icb_msg pf sk d s = Inr (Some (t # body), sk\<lparr>sock_pending := []\<rparr>, d1, s)"
    and ok1: "decoder_ok d1" and u1: "unread d1 = concat (map (\<lambda>(t, body). packet t body) ps)"
    by blast
  let ?sk1 = "sk\<lparr>sock_pending := []\<rparr>"
  have s1: "unread d1 @ sock_pending ?sk1 = concat (map (\<lambda>(t, body). packet t body) ps)"
    using u1 by simp
  have f1: "\<not> sock_failed ?sk1" "\<not> sock_closed ?sk1" using Cons.prems(4,5) by simp_all
  have "length (unread d1) \<le> length (unread d) + length (sock_pending sk)"
    using arg_cong [OF stream, of length] u1 by simp
  with Cons.prems(7) have b1: "length (unread d1) + length (sock_pending ?sk1) < 1048575" by simp
  from Cons.IH [OF ok1 s1 ns f1 Cons.prems(6) b1]
  obtain d' where "decode_stream (Suc (length ps)) pf ?sk1 d1 s =
      Some (Inr (map (\<lambda>(t, body). t # body) ps, ?sk1\<lparr>sock_pending := []\<rparr>, d', s))"
    by blast
  with g Cons.prems(6) have "decode_stream (Suc (length (p # ps))) pf sk d s =
      Some (Inr (map (\<lambda>(t, body). t # body) (p # ps), sk\<lparr>sock_pending := []\<rparr>, d', s))"
    by (simp add: p)
  then show ?case by blast
qed

lemma ws_task_packet: "it_data (ws_task type common c) = packet type (common @ c)"
  "it_len (ws_task type common c) = length (packet type (common @ c))"
  by (simp_all add: ws_task_def packet_def add.commute)

lemma wire_ws_tasks:
  "wire (map (ws_task type common) chunks) =
     concat (map (\<lambda>(t, body). packet t body) (map (\<lambda>c. (type, common @ c)) chunks))"
  by (induction chunks) (simp_all add: wire_def ws_task_packet)

lemma length_wire_ws_tasks:
  "length (wire (map (ws_task type common) chunks)) =
     length (concat chunks) + (length common + 3) * length chunks"
  by (induction chunks) (simp_all add: wire_def ws_task_def)

lemma ws_loop_count:
  "ws_loop type priv common maxlen src = Inr its \<Longrightarrow> length its \<le> Suc (length src)"
proof (induction type priv common maxlen src arbitrary: its rule: ws_loop.induct)
  case (1 type priv common maxlen src)
  show ?case
  proof (cases "length src - ws_msglen type priv maxlen src = 0")
    case True
    with "1.prems" show ?thesis by (subst (asm) ws_loop.simps) auto
  next
    case False
    show ?thesis
    proof (cases "ws_msglen type priv maxlen src = 0")
      case True
      with False "1.prems" show ?thesis by (subst (asm) ws_loop.simps) simp
    next
      case nz: False
      from False nz "1.prems" obtain its' where
        r: "ws_loop type priv common maxlen (drop (ws_msglen type priv maxlen src) src) = Inr its'"
        and its: "its = ws_task type common (take (ws_msglen type priv maxlen src) src) # its'"
        by (subst (asm) ws_loop.simps) (auto split: sum.splits)
      from "1.IH" [OF False nz r] its nz False show ?thesis by simp
    qed
  qed
qed

lemma decoder_ok_initial: "decoder_ok initial_decoder" "unread initial_decoder = []"
  by (simp_all add: decoder_ok_def unread_def initial_decoder_def)

lemma round_trip_ws:
  assumes nk: "strlen nk < NICKNAME_MAX pf" and len: "length payload \<le> 2000"
    and s: "\<not> want_exit s"
  shows "\<exists>chunks d'.
           push_icb_msg_ws pf nk type payload =
             Inr (map (ws_task type (take (ws_commonlen pf type payload) payload)) chunks) \<and>
           chunks \<noteq> [] \<and> concat chunks = drop (ws_commonlen pf type payload) payload \<and>
           decode_stream (Suc (length chunks)) pf
             (arrived (wire (map (ws_task type (take (ws_commonlen pf type payload) payload)) chunks)))
             initial_decoder s =
           Some (Inr (map (\<lambda>c. type # take (ws_commonlen pf type payload) payload @ c) chunks,
                      arrived [], d', s))"
proof -
  define cl where "cl = ws_commonlen pf type payload"
  define common where "common = take cl payload"
  from push_icb_msg_ws_chunks [OF nk, of type payload]
  obtain chunks where ch: "push_icb_msg_ws pf nk type payload = Inr (map (ws_task type common) chunks)"
    and ne: "chunks \<noteq> []" and cc: "concat chunks = drop cl payload"
    and bd: "\<forall>c\<in>set chunks. length c \<le> 252 - strlen nk - cl"
    unfolding cl_def common_def by blast
  have cl67: "cl \<le> 67" using ws_commonlen_le(1) [of pf type payload] NICKNAME_MAX_le [of pf]
    by (simp add: cl_def)
  have lc: "length common \<le> cl" by (simp add: common_def)
  from ch have "length chunks \<le> Suc (length (drop cl payload))"
    using ws_loop_count [of type "privmsg type payload" common "ws_maxlen nk cl" "drop cl payload"
        "map (ws_task type common) chunks"]
    by (simp add: push_icb_msg_ws_def Let_def cl_def common_def)
  with len have cnt: "length chunks \<le> 2001" by simp
  have "(length common + 3) * length chunks \<le> 70 * 2001"
    using lc cl67 cnt by (intro mult_mono) simp_all
  moreover have "length (concat chunks) \<le> 2000" using cc len by simp
  ultimately have size: "length (wire (map (ws_task type common) chunks)) < 1048575"
    by (simp add: length_wire_ws_tasks)
  let ?ps = "map (\<lambda>c. (type, common @ c)) chunks"
  let ?sk = "arrived (wire (map (ws_task type common) chunks))"
  have 1: "unread initial_decoder @ sock_pending ?sk = concat (map (\<lambda>(t, body). packet t body) ?ps)"
    by (simp add: decoder_ok_initial arrived_def wire_ws_tasks)
  have 2: "\<forall>(t, body)\<in>set ?ps. length body \<le> 253"
  proof -
    have "length (common @ c) \<le> 253" if "c \<in> set chunks" for c
    proof -
      from bd that have "length c \<le> 252 - strlen nk - cl" by blast
      with lc cl67 show ?thesis by simp
    qed
    then show ?thesis by auto
  qed
  have 3: "\<not> sock_failed ?sk" "\<not> sock_closed ?sk" by (simp_all add: arrived_def)
  have 4: "length (unread initial_decoder) + length (sock_pending ?sk) < 1048575"
    using size by (simp add: decoder_ok_initial arrived_def)
  from decode_stream_packets [OF decoder_ok_initial(1) 1 2 3 s 4, of pf]
  obtain d' where "decode_stream (Suc (length ?ps)) pf ?sk initial_decoder s =
      Some (Inr (map (\<lambda>(t, body). t # body) ?ps, ?sk\<lparr>sock_pending := []\<rparr>, d', s))"
    by blast
  moreover have "map (\<lambda>(t, body). t # body) ?ps = map (\<lambda>c. type # common @ c) chunks"
    by simp
  moreover have "?sk\<lparr>sock_pending := []\<rparr> = arrived []" by (simp add: arrived_def)
  ultimately have "decode_stream (Suc (length chunks)) pf ?sk initial_decoder s =
      Some (Inr (map (\<lambda>c. type # common @ c) chunks, arrived [], d', s))"
    by simp
  with ch ne cc show ?thesis unfolding cl_def common_def by blast
qed

lemma round_trip_extended_single:
  assumes len: "length payload \<le> 252" and s: "\<not> want_exit s"
  shows "\<exists>d'. decode_stream 2 pf (arrived (wire [push_icb_msg_extended type payload]))
                 initial_decoder s =
               Some (Inr ([type # payload], arrived [], d', s))"
proof -
  let ?sk = "arrived (wire [push_icb_msg_extended type payload])"
  have w: "wire [push_icb_msg_extended type payload] = packet type payload"
    using wire_ws_tasks [of type "[]" "[payload]"] push_icb_msg_extended_single [OF len, of type]
    by simp
  have 1: "unread initial_decoder @ sock_pending ?sk =
      concat (map (\<lambda>(t, body). packet t body) [(type, payload)])"
    by (simp add: decoder_ok_initial arrived_def w)
  have 2: "\<forall>(t, body)\<in>set [(type, payload)]. length body \<le> 253" using len by simp
  have 3: "\<not> sock_failed ?sk" "\<not> sock_closed ?sk" by (simp_all add: arrived_def)
  have 4: "length (unread initial_decoder) + length (sock_pending ?sk) < 1048575"
    using len by (simp add: decoder_ok_initial arrived_def w packet_def)
  from decode_stream_packets [OF decoder_ok_initial(1) 1 2 3 s 4, of pf]
  obtain d' where "decode_stream (Suc (length [(type, payload)])) pf ?sk initial_decoder s =
      Some (Inr (map (\<lambda>(t, body). t # body) [(type, payload)], ?sk\<lparr>sock_pending := []\<rparr>, d', s))"
    by blast
  moreover have "?sk\<lparr>sock_pending := []\<rparr> = arrived []" by (simp add: arrived_def)
  ultimately show ?thesis by (simp add: numeral_2_eq_2)
qed

section \<open>The round trip\<close>

text \<open>
  Claim C1, as amended. For a nickname that \<^verbatim>\<open>main\<close> accepts, every type byte and
  every payload of at most 2000 bytes, the packets of \<^verbatim>\<open>push_icb_msg_ws\<close> fed to a
  fresh decoder give one or more messages and then none; each message has the
  type byte and begins with the common prefix of the payload (empty unless the
  message is a private one), and the bytes after the prefix, concatenated in
  order, are the payload after its prefix. So for every message that is not a
  private one the payloads concatenated are the payload. For a payload of at most
  252 bytes the packet of \<^verbatim>\<open>push_icb_msg_extended\<close> gives exactly one message, with
  the type and the payload.
\<close>

theorem codec_round_trip:
  assumes "strlen nk < NICKNAME_MAX pf" and "length payload \<le> 2000" and "\<not> want_exit s"
  shows "(\<exists>its msgs d'.
            push_icb_msg_ws pf nk type payload = Inr its \<and>
            decode_stream (Suc (length its)) pf (arrived (wire its)) initial_decoder s =
              Some (Inr (msgs, arrived [], d', s)) \<and>
            msgs \<noteq> [] \<and>
            (\<forall>m\<in>set msgs. hd m = type \<and>
               take (ws_commonlen pf type payload) (tl m) = take (ws_commonlen pf type payload) payload) \<and>
            concat (map (\<lambda>m. drop (ws_commonlen pf type payload) (tl m)) msgs) =
              drop (ws_commonlen pf type payload) payload \<and>
            (\<not> privmsg type payload \<longrightarrow> concat (map tl msgs) = payload)) \<and>
         (length payload \<le> 252 \<longrightarrow>
            (\<exists>d'. decode_stream 2 pf (arrived (wire [push_icb_msg_extended type payload]))
                     initial_decoder s =
                   Some (Inr ([type # payload], arrived [], d', s))))"
proof (intro conjI impI)
  define cl where "cl = ws_commonlen pf type payload"
  define common where "common = take cl payload"
  from round_trip_ws [OF assms, of type]
  obtain chunks d' where
    ch: "push_icb_msg_ws pf nk type payload = Inr (map (ws_task type common) chunks)"
    and ne: "chunks \<noteq> []" and cc: "concat chunks = drop cl payload"
    and dec: "decode_stream (Suc (length chunks)) pf
             (arrived (wire (map (ws_task type common) chunks))) initial_decoder s =
           Some (Inr (map (\<lambda>c. type # common @ c) chunks, arrived [], d', s))"
    unfolding cl_def common_def by blast
  let ?its = "map (ws_task type common) chunks"
  let ?msgs = "map (\<lambda>c. type # common @ c) chunks"
  have lc: "length common = cl"
    using ws_commonlen_le(2) [of pf type payload] by (simp add: common_def cl_def)
  have 1: "decode_stream (Suc (length ?its)) pf (arrived (wire ?its)) initial_decoder s =
      Some (Inr (?msgs, arrived [], d', s))"
    using dec by simp
  have 2: "?msgs \<noteq> []" using ne by simp
  have 3: "\<forall>m\<in>set ?msgs. hd m = type \<and> take cl (tl m) = take cl payload"
    using lc by (auto simp: common_def)
  have "map (\<lambda>m. drop cl (tl m)) ?msgs = chunks"
    using lc by (induction chunks) simp_all
  with cc have 4: "concat (map (\<lambda>m. drop cl (tl m)) ?msgs) = drop cl payload" by simp
  have 5: "concat (map tl ?msgs) = payload" if "\<not> privmsg type payload"
  proof -
    from that have "cl = 0" by (simp add: cl_def ws_commonlen_0)
    then have "common = []" by (simp add: common_def)
    then have "map tl ?msgs = chunks" by (induction chunks) simp_all
    with cc \<open>cl = 0\<close> show ?thesis by simp
  qed
  from ch 1 2 3 4 5
  show "\<exists>its msgs d'.
            push_icb_msg_ws pf nk type payload = Inr its \<and>
            decode_stream (Suc (length its)) pf (arrived (wire its)) initial_decoder s =
              Some (Inr (msgs, arrived [], d', s)) \<and>
            msgs \<noteq> [] \<and>
            (\<forall>m\<in>set msgs. hd m = type \<and>
               take (ws_commonlen pf type payload) (tl m) = take (ws_commonlen pf type payload) payload) \<and>
            concat (map (\<lambda>m. drop (ws_commonlen pf type payload) (tl m)) msgs) =
              drop (ws_commonlen pf type payload) payload \<and>
            (\<not> privmsg type payload \<longrightarrow> concat (map tl msgs) = payload)"
    unfolding cl_def [symmetric] by blast
next
  assume "length payload \<le> 252"
  from round_trip_extended_single [OF this assms(3)]
  show "\<exists>d'. decode_stream 2 pf (arrived (wire [push_icb_msg_extended type payload]))
                     initial_decoder s =
                   Some (Inr ([type # payload], arrived [], d', s))" .
qed

lemma sample_want_exit: "\<not> want_exit (sample_session st)"
  by (simp add: sample_session_def initial_session_def)

text \<open>The round trip of an open message in both modes.\<close>

theorem codec_round_trip_witness:
  "strlen ''me'' < NICKNAME_MAX sample_platform \<and> length ''hello'' \<le> 2000 \<and>
   \<not> want_exit (sample_session Chat) \<and>
   (\<exists>its msgs d'.
      push_icb_msg_ws sample_platform ''me'' (CHR ''b'') ''hello'' = Inr its \<and>
      decode_stream (Suc (length its)) sample_platform (arrived (wire its)) initial_decoder
          (sample_session Chat) =
        Some (Inr (msgs, arrived [], d', sample_session Chat)) \<and>
      msgs \<noteq> [] \<and> concat (map tl msgs) = ''hello'') \<and>
   (\<exists>d'. decode_stream 2 sample_platform
            (arrived (wire [push_icb_msg_extended (CHR ''b'') ''hello'']))
            initial_decoder (sample_session Chat) =
          Some (Inr ([''bhello''], arrived [], d', sample_session Chat)))"
proof -
  have l: "length ''hello'' \<le> 2000" by simp
  have np: "\<not> privmsg (CHR ''b'') ''hello''" by (simp add: privmsg_def)
  have l2: "length ''hello'' \<le> 252" by simp
  note t = codec_round_trip [where type = "CHR ''b''" and s = "sample_session Chat",
      OF sample_strlen_me l sample_want_exit]
  from t np have a: "\<exists>its msgs d'.
      push_icb_msg_ws sample_platform ''me'' (CHR ''b'') ''hello'' = Inr its \<and>
      decode_stream (Suc (length its)) sample_platform (arrived (wire its)) initial_decoder
          (sample_session Chat) =
        Some (Inr (msgs, arrived [], d', sample_session Chat)) \<and>
      msgs \<noteq> [] \<and> concat (map tl msgs) = ''hello''"
    by blast
  from t l2 have b: "\<exists>d'. decode_stream 2 sample_platform
            (arrived (wire [push_icb_msg_extended (CHR ''b'') ''hello'']))
            initial_decoder (sample_session Chat) =
          Some (Inr ([''bhello''], arrived [], d', sample_session Chat))"
    by simp
  from sample_strlen_me l sample_want_exit a b show ?thesis by blast
qed

lemma find_break_replicate_letter:
  assumes "i < n" "\<not> (isblank c \<or> ispunct c)"
  shows "find_break (replicate n c) i = None"
proof (rule find_break_eq_None, intro allI impI)
  fix j assume "1 \<le> j \<and> j \<le> i"
  with assms(1) have "replicate n c ! j = c" by simp
  with assms(2) show "\<not> (isblank (replicate n c ! j) \<or> ispunct (replicate n c ! j))" by simp
qed

lemma not_break_x: "\<not> (isblank (CHR ''x'') \<or> ispunct (CHR ''x''))"
  by (simp add: isblank_def ispunct_def)

lemma length_sample_prefix: "length sample_prefix = 6"
  by (simp add: sample_prefix_def)

lemma sample_private_commonlen: "ws_commonlen sample_platform (CHR ''h'') sample_private = 6"
  by (simp add: ws_commonlen_def privmsg_def sample_private_def sample_prefix_def
      sample_platform_def NICKNAME_MAX_def)

lemma sample_private_maxlen: "ws_maxlen ''me'' 6 = 244"
  by (simp add: ws_maxlen_def strlen_def cstr_def)

lemma sample_private_packets:
  "push_icb_msg_ws sample_platform ''me'' (CHR ''h'') sample_private =
     Inr [ws_task (CHR ''h'') sample_prefix (replicate 244 (CHR ''x'')),
          ws_task (CHR ''h'') sample_prefix (replicate 56 (CHR ''x''))]"
proof -
  have priv: "privmsg (CHR ''h'') sample_private"
    by (simp add: privmsg_def sample_private_def sample_prefix_def)
  have tk: "take 6 sample_private = sample_prefix"
    by (simp add: sample_private_def length_sample_prefix)
  have dr: "drop 6 sample_private = replicate 300 (CHR ''x'')"
    by (simp add: sample_private_def length_sample_prefix)
  have fb: "find_break (replicate 300 (CHR ''x'')) 243 = None"
    using not_break_x by (intro find_break_replicate_letter) simp_all
  have m1: "ws_msglen (CHR ''h'') True 244 (replicate 300 (CHR ''x'')) = 244"
    by (simp add: ws_msglen_def fb)
  have m2: "ws_msglen (CHR ''h'') True 244 (replicate 56 (CHR ''x'')) = 56"
    by (simp add: ws_msglen_def)
  have l2: "ws_loop (CHR ''h'') True sample_prefix 244 (replicate 56 (CHR ''x'')) =
      Inr [ws_task (CHR ''h'') sample_prefix (replicate 56 (CHR ''x''))]"
    by (subst ws_loop.simps) (simp add: m2)
  have l1: "ws_loop (CHR ''h'') True sample_prefix 244 (replicate 300 (CHR ''x'')) =
      Inr [ws_task (CHR ''h'') sample_prefix (replicate 244 (CHR ''x'')),
           ws_task (CHR ''h'') sample_prefix (replicate 56 (CHR ''x''))]"
    by (subst ws_loop.simps) (simp add: m1 l2)
  show ?thesis
    unfolding push_icb_msg_ws_def Let_def sample_private_commonlen sample_private_maxlen tk dr
    using priv l1 by simp
qed

text \<open>
  Claim C1 as stated fails for a private message that needs two packets: each
  packet repeats the prefix that addresses the recipient, so the payloads
  concatenated are longer than the payload sent.
\<close>

theorem private_message_counterexample:
  "decoded (decode_stream 3 sample_platform
      (arrived (wire_of (push_icb_msg_ws sample_platform ''me'' (CHR ''h'') sample_private)))
      initial_decoder (sample_session Chat)) =
     Some (Inr [CHR ''h'' # sample_prefix @ replicate 244 (CHR ''x''),
                CHR ''h'' # sample_prefix @ replicate 56 (CHR ''x'')]) \<and>
   concat (map tl [CHR ''h'' # sample_prefix @ replicate 244 (CHR ''x''),
                   CHR ''h'' # sample_prefix @ replicate 56 (CHR ''x'')]) \<noteq>
     sample_private"
proof -
  let ?ps = "[(CHR ''h'', sample_prefix @ replicate 244 (CHR ''x'')),
              (CHR ''h'', sample_prefix @ replicate 56 (CHR ''x''))]"
  let ?w = "wire_of (push_icb_msg_ws sample_platform ''me'' (CHR ''h'') sample_private)"
  have w: "?w = concat (map (\<lambda>(t, body). packet t body) ?ps)"
    unfolding sample_private_packets wire_of_def
    using wire_ws_tasks [of "CHR ''h''" sample_prefix "[replicate 244 (CHR ''x''), replicate 56 (CHR ''x'')]"]
    by simp
  have 1: "unread initial_decoder @ sock_pending (arrived ?w) =
      concat (map (\<lambda>(t, body). packet t body) ?ps)"
    by (simp only: decoder_ok_initial arrived_def w socket.simps append_Nil)
  have 2: "\<forall>(t, body)\<in>set ?ps. length body \<le> 253" by (simp add: length_sample_prefix)
  have 3: "\<not> sock_failed (arrived ?w)" "\<not> sock_closed (arrived ?w)" by (simp_all add: arrived_def)
  have "length ?w = 318" unfolding w by (simp add: packet_def length_sample_prefix)
  then have 4: "length (unread initial_decoder) + length (sock_pending (arrived ?w)) < 1048575"
    by (simp add: decoder_ok_initial arrived_def)
  from decode_stream_packets [OF decoder_ok_initial(1) 1 2 3 sample_want_exit 4, of sample_platform]
  obtain d' where "decode_stream (Suc (length ?ps)) sample_platform (arrived ?w) initial_decoder
      (sample_session Chat) =
      Some (Inr (map (\<lambda>(t, body). t # body) ?ps, (arrived ?w)\<lparr>sock_pending := []\<rparr>, d',
        sample_session Chat))"
    by blast
  then have "decode_stream 3 sample_platform (arrived ?w) initial_decoder (sample_session Chat) =
      Some (Inr (map (\<lambda>(t, body). t # body) ?ps, (arrived ?w)\<lparr>sock_pending := []\<rparr>, d',
        sample_session Chat))"
    by (simp only: numeral_3_eq_3 list.size One_nat_def add_Suc_right add_0_right add_0)
  then have a: "decoded (decode_stream 3 sample_platform (arrived ?w) initial_decoder
      (sample_session Chat)) =
     Some (Inr [CHR ''h'' # sample_prefix @ replicate 244 (CHR ''x''),
                CHR ''h'' # sample_prefix @ replicate 56 (CHR ''x'')])"
    by (simp add: decoded_def)
  have "length (concat (map tl [CHR ''h'' # sample_prefix @ replicate 244 (CHR ''x''),
                   CHR ''h'' # sample_prefix @ replicate 56 (CHR ''x'')])) \<noteq> length sample_private"
    by (simp add: sample_private_def length_sample_prefix)
  then have b: "concat (map tl [CHR ''h'' # sample_prefix @ replicate 244 (CHR ''x''),
                   CHR ''h'' # sample_prefix @ replicate 56 (CHR ''x'')]) \<noteq> sample_private"
    by metis
  from a b show ?thesis by blast
qed

section \<open>Further facts about the extended mode\<close>

lemma ext_loop_slots:
  "ext_loop type k s = (concat (map (ext_slot type s) [0..<k]), drop (254 * k) s)"
proof (induction k arbitrary: s)
  case 0
  show ?case by simp
next
  case (Suc k)
  have "[0..<Suc k] = 0 # map Suc [0..<k]"
    by (simp add: upt_conv_Cons map_Suc_upt del: upt_Suc)
  moreover have "ext_slot type s (Suc i) = ext_slot type (drop 254 s) i" for i
    by (simp add: ext_slot_def add.commute)
  ultimately have c: "concat (map (ext_slot type s) [0..<Suc k]) =
      ext_slot type s 0 @ concat (map (ext_slot type (drop 254 s)) [0..<k])"
    by (simp add: comp_def del: upt_Suc)
  have e0: "ext_slot type s 0 = NUL # type # take 254 s" by (simp add: ext_slot_def)
  have d: "drop (254 * k) (drop 254 s) = drop (254 * Suc k) s" by (simp add: add.commute)
  have "ext_loop type (Suc k) s =
      (NUL # type # take 254 s @ concat (map (ext_slot type (drop 254 s)) [0..<k]),
       drop (254 * k) (drop 254 s))"
    by (simp add: Suc.IH del: upt_Suc)
  then show ?case unfolding c e0 d by simp
qed

lemma length_ext_slots:
  assumes "254 * k \<le> length s"
  shows "length (concat (map (ext_slot type s) [0..<k])) = 256 * k"
  using assms
proof (induction k)
  case 0
  show ?case by simp
next
  case (Suc k)
  then have "length (ext_slot type s k) = 256" by (simp add: ext_slot_def)
  with Suc show ?case by simp
qed

lemma ext_slot_append:
  assumes "254 * (i + 1) \<le> length src"
  shows "ext_slot type (src @ z) i = ext_slot type src i"
  using assms by (simp add: ext_slot_def)

lemma take_padded:
  "length (a @ b @ c) = n \<Longrightarrow> take n (a @ b @ c @ pad) = a @ b @ c"
  by simp

text \<open>
  When the length of the payload plus one is not a multiple of 254, the task is
  \<open>q\<close> full slots followed by a last slot whose length byte counts the type
  byte, the remaining payload bytes and the terminator.
\<close>

lemma push_icb_msg_extended_layout:
  assumes r: "(length src + 1) mod 254 \<noteq> 0"
    and q_def: "q = (length src + 1) div 254" and r_def: "r = (length src + 1) mod 254"
  shows "it_data (push_icb_msg_extended type src) =
           concat (map (ext_slot type src) [0..<q]) @ [char_of (r + 1), type] @
           drop (254 * q) src @ [NUL]"
    and "it_len (push_icb_msg_extended type src) = 256 * q + 1 + r + 1"
proof -
  have len: "length src + 1 = 254 * q + r" by (simp add: q_def r_def)
  have rpos: "0 < r" "r < 254" using r by (simp_all add: r_def)
  have cnt: "(length src + 1 + 253) div 254 = q + 1"
  proof -
    have "length src + 1 + 253 = 254 * (q + 1) + (r - 1)" using len rpos by simp
    moreover have "r - 1 < 254" using rpos by simp
    ultimately show ?thesis by (metis add.commute div_mult_self1 div_less add_0 zero_neq_numeral mult.commute)
  qed
  have qle: "254 * q \<le> length src" using len rpos by simp
  have slots: "concat (map (ext_slot type (src @ [NUL])) [0..<q]) = concat (map (ext_slot type src) [0..<q])"
  proof -
    have "map (ext_slot type (src @ [NUL])) [0..<q] = map (ext_slot type src) [0..<q]"
    proof (rule map_cong [OF refl])
      fix i assume "i \<in> set [0..<q]"
      then have "254 * (i + 1) \<le> 254 * q" by simp
      with qle have "254 * (i + 1) \<le> length src" by simp
      then show "ext_slot type (src @ [NUL]) i = ext_slot type src i" by (rule ext_slot_append)
    qed
    then show ?thesis by (rule arg_cong)
  qed
  have rest: "drop (254 * q) (src @ [NUL]) = drop (254 * q) src @ [NUL]" using qle by simp
  have lrest: "length (drop (254 * q) src @ [NUL]) = r" using len qle by simp
  define w where "w = concat (map (ext_slot type src) [0..<q])"
  have lw: "length w = 256 * q"
    unfolding w_def using qle by (rule length_ext_slots)
  have "ext_loop type q (src @ [NUL]) = (w, drop (254 * q) src @ [NUL])"
    unfolding ext_loop_slots slots rest w_def ..
  then have el: "ext_loop type (q + 1 - 1) (src @ [NUL]) = (w, drop (254 * q) src @ [NUL])"
    by (simp only: add_diff_cancel_right')
  have m: "(length src + 1) mod 254 mod 256 = r" using rpos by (simp add: r_def)
  have tr: "take r (drop (254 * q) src @ [NUL]) = drop (254 * q) src @ [NUL]"
    using lrest by simp
  have lfull: "length (w @ [char_of (r + 1), type] @ drop (254 * q) src @ [NUL]) =
      length src + 1 + (q + 1) * 2"
    using lw lrest len by simp
  have unf: "push_icb_msg_extended type src =
      \<lparr>it_len = length src + 1 + (q + 1) * 2, it_ndone = 0, it_cb = None,
       it_data = take (length src + 1 + (q + 1) * 2)
         (w @ [char_of (r + 1), type] @ (drop (254 * q) src @ [NUL]) @
          replicate (length src + 1 + (q + 1) * 2) NUL)\<rparr>"
    unfolding push_icb_msg_extended_def Let_def cnt el m prod.case tr ..
  have "take (length src + 1 + (q + 1) * 2)
         (w @ [char_of (r + 1), type] @ (drop (254 * q) src @ [NUL]) @
          replicate (length src + 1 + (q + 1) * 2) NUL) =
        w @ [char_of (r + 1), type] @ drop (254 * q) src @ [NUL]"
    using lfull by (rule take_padded)
  then show "it_data (push_icb_msg_extended type src) =
           concat (map (ext_slot type src) [0..<q]) @ [char_of (r + 1), type] @
           drop (254 * q) src @ [NUL]"
    unfolding unf w_def by simp
  show "it_len (push_icb_msg_extended type src) = 256 * q + 1 + r + 1"
    unfolding unf using len by simp
qed

text \<open>
  A payload of 300 bytes in extended mode, decoded: the offset \<^verbatim>\<open>msgend\<close> is taken
  before the second slot is moved down and is not adjusted, so the call after
  the one that returns the message moves a negative number of bytes.
\<close>

lemma extended_two_slots_fault:
  "decoded (decode_stream 2 sample_platform
     (arrived (wire [push_icb_msg_extended (CHR ''b'') (replicate 300 (CHR ''a''))]))
     initial_decoder (sample_session Chat)) = Some (Inl Mem_fault)"
  by code_simp

text \<open>A payload of 253 bytes in extended mode, decoded: a message with no payload.\<close>

lemma extended_253_lost:
  "decoded (decode_stream 2 sample_platform
     (arrived (wire [push_icb_msg_extended (CHR ''b'') (replicate 253 (CHR ''a''))]))
     initial_decoder (sample_session Chat)) = Some (Inr [''b''])"
  by code_simp

text \<open>No event changes the \<^verbatim>\<open>ExtPkt\<close> bit, which is clear at startup.\<close>

lemma step_extpkt:
  assumes "step pf ev s = Inr s'"
  shows "srv_features s' AND ExtPkt = srv_features s AND ExtPkt"
proof -
  have "(x AND NOT Ping) AND ExtPkt = x AND ExtPkt" for x
  proof -
    have "NOT Ping AND ExtPkt = ExtPkt" by (simp add: Ping_def ExtPkt_def)
    then show ?thesis by (simp add: and.assoc)
  qed
  with step_features [OF assms] show ?thesis by auto
qed

lemma run_extpkt_clear:
  "run pf evs (initial_session nk h r) = Inr s \<Longrightarrow> srv_features s AND ExtPkt \<noteq> ExtPkt"
proof -
  have "run pf evs s0 = Inr s \<Longrightarrow> srv_features s AND ExtPkt = srv_features s0 AND ExtPkt" for s0
  proof (induction evs arbitrary: s0)
    case Nil
    then show ?case by simp
  next
    case (Cons ev evs)
    then show ?case by (auto split: sum.splits dest: step_extpkt)
  qed
  moreover have "srv_features (initial_session nk h r) AND ExtPkt \<noteq> ExtPkt"
    by (simp add: initial_session_def Ping_def ExtPkt_def)
  ultimately show "run pf evs (initial_session nk h r) = Inr s \<Longrightarrow> srv_features s AND ExtPkt \<noteq> ExtPkt"
    by metis
qed

end
